theory Spec2Isabelle
  imports Main
begin

section \<open>Strings\<close>

text \<open>
  JavaScript strings are modelled as \<^typ>\<open>string\<close> (lists of 8-bit characters).  A character
  outside ASCII stands for its UTF-8 bytes; the regular expressions of the program that are
  modelled here only inspect ASCII characters.  Line numbers are mathematical integers
  (the program's numbers are exact below \<open>2^53\<close>).
\<close>

definition is_space :: "char \<Rightarrow> bool" where
  \<comment> \<open>\<open>\s\<close> and the characters removed by \<open>trim()\<close>, within ASCII\<close>
  "is_space c \<longleftrightarrow> c = CHR '' '' \<or> c = CHR 0x09 \<or> c = CHR 0x0A \<or> c = CHR 0x0B
     \<or> c = CHR 0x0C \<or> c = CHR 0x0D"

definition is_digit :: "char \<Rightarrow> bool" where
  \<comment> \<open>\<open>\d\<close>\<close>
  "is_digit c \<longleftrightarrow> 48 \<le> (of_char c :: nat) \<and> (of_char c :: nat) \<le> 57"

definition is_upper :: "char \<Rightarrow> bool" where
  \<comment> \<open>\<open>[A-Z]\<close>\<close>
  "is_upper c \<longleftrightarrow> 65 \<le> (of_char c :: nat) \<and> (of_char c :: nat) \<le> 90"

definition is_lower :: "char \<Rightarrow> bool" where
  "is_lower c \<longleftrightarrow> 97 \<le> (of_char c :: nat) \<and> (of_char c :: nat) \<le> 122"

definition is_ident_start :: "char \<Rightarrow> bool" where
  \<comment> \<open>\<open>[a-zA-Z_$]\<close>\<close>
  "is_ident_start c \<longleftrightarrow> is_lower c \<or> is_upper c \<or> c = CHR ''_'' \<or> c = CHR ''$''"

definition is_ident :: "char \<Rightarrow> bool" where
  \<comment> \<open>\<open>[a-zA-Z0-9_$]\<close>\<close>
  "is_ident c \<longleftrightarrow> is_ident_start c \<or> is_digit c"

definition is_word :: "char \<Rightarrow> bool" where
  \<comment> \<open>\<open>\w\<close>\<close>
  "is_word c \<longleftrightarrow> is_lower c \<or> is_upper c \<or> is_digit c \<or> c = CHR ''_''"

definition trim :: "string \<Rightarrow> string" where
  "trim s = rev (dropWhile is_space (rev (dropWhile is_space s)))"

fun startsWith :: "string \<Rightarrow> string \<Rightarrow> bool" where
  "startsWith s [] = True"
| "startsWith [] (p # ps) = False"
| "startsWith (c # cs) (p # ps) = (c = p \<and> startsWith cs ps)"

definition endsWith :: "string \<Rightarrow> string \<Rightarrow> bool" where
  "endsWith s p = startsWith (rev s) (rev p)"

fun str_includes :: "string \<Rightarrow> string \<Rightarrow> bool" where
  \<comment> \<open>\<open>s.includes(p)\<close>\<close>
  "str_includes [] p = (p = [])"
| "str_includes (c # cs) p = (startsWith (c # cs) p \<or> str_includes cs p)"

fun splitOn :: "char \<Rightarrow> string \<Rightarrow> string list" where
  \<comment> \<open>\<open>s.split(d)\<close> for a one-character separator: never empty\<close>
  "splitOn d [] = [[]]"
| "splitOn d (c # cs) =
     (if c = d then [] # splitOn d cs
      else (case splitOn d cs of [] \<Rightarrow> [[c]] | l # ls \<Rightarrow> (c # l) # ls))"

definition newline :: char where
  "newline = CHR 0x0A"

definition split_lines :: "string \<Rightarrow> string list" where
  \<comment> \<open>\<open>s.split('\n')\<close>\<close>
  "split_lines s = splitOn newline s"

fun join_lines :: "string list \<Rightarrow> string" where
  \<comment> \<open>\<open>ls.join('\n')\<close>\<close>
  "join_lines [] = []"
| "join_lines [l] = l"
| "join_lines (l # ls) = l @ newline # join_lines ls"

fun parse_nat_acc :: "nat \<Rightarrow> string \<Rightarrow> nat" where
  "parse_nat_acc a [] = a"
| "parse_nat_acc a (c # cs) = parse_nat_acc (10 * a + (of_char c - 48)) cs"

definition parseInt :: "string \<Rightarrow> int" where
  \<comment> \<open>\<open>parseInt\<close> on a non-empty string of decimal digits\<close>
  "parseInt ds = int (parse_nat_acc 0 ds)"

section \<open>Hunk mapper: the staged-change map of getCopilotReview\<close>

text \<open>
  The first capture of \<open>/b\/(.*)$/\<close>: the text after the leftmost \<open>b/\<close> whose rest of the line
  holds no line terminator (\<open>.\<close> does not match one, and \<open>$\<close> is the end of the string).
\<close>

definition is_line_terminator :: "char \<Rightarrow> bool" where
  "is_line_terminator c \<longleftrightarrow> c = CHR 0x0A \<or> c = CHR 0x0D"

fun match_b_path :: "string \<Rightarrow> string option" where
  "match_b_path [] = None"
| "match_b_path (c # cs) =
     (if startsWith (c # cs) ''b/'' \<and> \<not> (\<exists>x \<in> set (drop 1 cs). is_line_terminator x)
      then Some (drop 1 cs) else match_b_path cs)"

text \<open>
  The hunk-header pattern \<open>/@@\s+-\d+(?:,\d+)?\s+\+(\d+)(?:,\d+)?\s+@@/\<close>, as a matcher
  at one position built from the pieces of the pattern; every quantifier of the pattern is
  followed by a character outside its class, so the greedy match is the only one.
\<close>

definition lit :: "string \<Rightarrow> string \<Rightarrow> string option" where
  "lit p s = (if startsWith s p then Some (drop (length p) s) else None)"

definition spaces1 :: "string \<Rightarrow> string option" where
  \<comment> \<open>\<open>\s+\<close>\<close>
  "spaces1 s = (case s of [] \<Rightarrow> None | c # cs \<Rightarrow> if is_space c then Some (dropWhile is_space cs) else None)"

definition digits1 :: "string \<Rightarrow> (string \<times> string) option" where
  \<comment> \<open>\<open>(\d+)\<close>: the digits and the rest\<close>
  "digits1 s = (if takeWhile is_digit s = [] then None
                else Some (takeWhile is_digit s, dropWhile is_digit s))"

definition opt_count :: "string \<Rightarrow> string" where
  \<comment> \<open>\<open>(?:,\d+)?\<close>\<close>
  "opt_count s = (case s of [] \<Rightarrow> s | c # cs \<Rightarrow>
     if c = CHR '','' \<and> takeWhile is_digit cs \<noteq> [] then dropWhile is_digit cs else s)"

definition hunk_at :: "string \<Rightarrow> string option" where
  "hunk_at s =
     Option.bind (lit ''@@'' s) (\<lambda>s1.
     Option.bind (spaces1 s1) (\<lambda>s2.
     Option.bind (lit ''-'' s2) (\<lambda>s3.
     Option.bind (digits1 s3) (\<lambda>(a, s4).
     Option.bind (spaces1 (opt_count s4)) (\<lambda>s5.
     Option.bind (lit ''+'' s5) (\<lambda>s6.
     Option.bind (digits1 s6) (\<lambda>(c, s7).
     Option.bind (spaces1 (opt_count s7)) (\<lambda>s8.
     Option.bind (lit ''@@'' s8) (\<lambda>s9. Some c)))))))))"

fun hunk_search :: "string \<Rightarrow> string option" where
  \<comment> \<open>\<open>line.match(...)\<close>: the leftmost position where the pattern matches; its capture\<close>
  "hunk_search [] = None"
| "hunk_search (c # cs) =
     (case hunk_at (c # cs) of None \<Rightarrow> hunk_search cs | Some n \<Rightarrow> Some n)"

record hstate =
  cur_file :: string
  cur_line :: int
  staged :: "string \<rightharpoonup> int set"

definition hunk_init :: hstate where
  "hunk_init = \<lparr>cur_file = [], cur_line = 0, staged = Map.empty\<rparr>"

definition add_staged :: "(string \<rightharpoonup> int set) \<Rightarrow> string \<Rightarrow> int \<Rightarrow> (string \<rightharpoonup> int set)" where
  \<comment> \<open>\<open>if (!m.has(f)) m.set(f, new Set()); m.get(f).add(n)\<close>\<close>
  "add_staged m f n = m(f \<mapsto> (case m f of None \<Rightarrow> {n} | Some s \<Rightarrow> insert n s))"

definition is_addition :: "string \<Rightarrow> bool" where
  "is_addition line \<longleftrightarrow> startsWith line ''+'' \<and> \<not> startsWith line ''+++''"

definition hunk_step :: "hstate \<Rightarrow> string \<Rightarrow> hstate" where
  "hunk_step st line =
     (if startsWith line ''diff --git'' then
        st\<lparr>cur_file := (case match_b_path line of Some m \<Rightarrow> trim m | None \<Rightarrow> [])\<rparr>
      else if startsWith line ''@@'' then
        (case hunk_search line of
           Some c \<Rightarrow> st\<lparr>cur_line := parseInt c - 1\<rparr>
         | None \<Rightarrow> st)
      else if startsWith line ''+'' \<and> \<not> startsWith line ''+++'' then
        (if cur_file st \<noteq> []
         then st\<lparr>cur_line := cur_line st + 1,
                 staged := add_staged (staged st) (cur_file st) (cur_line st + 1)\<rparr>
         else st\<lparr>cur_line := cur_line st + 1\<rparr>)
      else if \<not> startsWith line ''-'' \<and> \<not> startsWith line ''+++'' \<and> \<not> startsWith line ''---'' then
        st\<lparr>cur_line := cur_line st + 1\<rparr>
      else st)"

definition hunk_run :: "string list \<Rightarrow> hstate" where
  "hunk_run ls = foldl hunk_step hunk_init ls"

definition stagedChanges :: "string \<Rightarrow> (string \<rightharpoonup> int set)" where
  "stagedChanges diff = staged (hunk_run (split_lines diff))"

definition staged_has :: "(string \<rightharpoonup> int set) \<Rightarrow> string \<Rightarrow> int \<Rightarrow> bool" where
  \<comment> \<open>\<open>m.get(f)?.has(n) || false\<close>\<close>
  "staged_has m f n = (case m f of None \<Rightarrow> False | Some s \<Rightarrow> n \<in> s)"

section \<open>Rules and the fix synthesizer\<close>

text \<open>
  A rule of the \<open>patterns\<close> catalogue.  Its regular expression is the function \<open>rx_exec\<close>:
  \<open>None\<close> when \<open>regex.exec(s)\<close> is \<open>null\<close>, otherwise the capture groups of the leftmost
  match (\<open>match[1]\<close> first; a group that took no part is the empty string, which is as falsy
  as \<open>undefined\<close>).  No pattern of the catalogue has the \<open>g\<close> flag, so \<open>exec\<close> and \<open>test\<close>
  keep no state.
\<close>

datatype severity = Critical | High | Medium | Low

fun severity_name :: "severity \<Rightarrow> string" where
  "severity_name Critical = ''critical''"
| "severity_name High = ''high''"
| "severity_name Medium = ''medium''"
| "severity_name Low = ''low''"

record rule =
  rx_exec :: "string \<Rightarrow> string list option"
  message :: string
  severity :: severity
  fix_hint :: string

definition rx_test :: "rule \<Rightarrow> string \<Rightarrow> bool" where
  \<comment> \<open>\<open>pattern.regex.test(s)\<close>\<close>
  "rx_test p s \<longleftrightarrow> rx_exec p s \<noteq> None"

fun replace_all_from :: "nat \<Rightarrow> string \<Rightarrow> string \<Rightarrow> string \<Rightarrow> string" where
  \<comment> \<open>\<open>s.replace(/p/g, r)\<close> for a literal, non-empty \<open>p\<close> and \<open>r\<close> without \<open>$\<close>;
      the counter skips the rest of a match\<close>
  "replace_all_from k p r [] = []"
| "replace_all_from k p r (c # cs) =
     (if 0 < k then replace_all_from (k - 1) p r cs
      else if startsWith (c # cs) p then r @ replace_all_from (length p - 1) p r cs
      else c # replace_all_from 0 p r cs)"

definition comment_console_log :: "string \<Rightarrow> string" where
  \<comment> \<open>\<open>s.replace(/console\.log\(/g, '// console.log(')\<close>\<close>
  "comment_console_log s = replace_all_from 0 ''console.log('' ''// console.log('' s"

fun var_to_const_from :: "bool \<Rightarrow> nat \<Rightarrow> string \<Rightarrow> string" where
  \<comment> \<open>\<open>s.replace(/\bvar\s+/g, 'const ')\<close>; the flag says that the character before is a
      word character, the counter skips the rest of a match (it ends in white space)\<close>
  "var_to_const_from w k [] = []"
| "var_to_const_from w k (c # cs) =
     (if 0 < k then var_to_const_from False (k - 1) cs
      else if \<not> w \<and> startsWith (c # cs) ''var'' \<and> takeWhile is_space (drop 2 cs) \<noteq> []
      then ''const '' @ var_to_const_from False (2 + length (takeWhile is_space (drop 2 cs))) cs
      else c # var_to_const_from (is_word c) 0 cs)"

definition var_to_const :: "string \<Rightarrow> string" where
  "var_to_const s = var_to_const_from False 0 s"

definition severity_tags :: "string list" where
  \<comment> \<open>the alternatives of the tag pattern: four emoji (as UTF-8) and four words\<close>
  "severity_tags =
     [[CHR 0xF0, CHR 0x9F, CHR 0x9A, CHR 0xA8], [CHR 0xF0, CHR 0x9F, CHR 0x9F, CHR 0xA0],
      [CHR 0xF0, CHR 0x9F, CHR 0x9F, CHR 0xA1], [CHR 0xF0, CHR 0x9F, CHR 0x9F, CHR 0xA2],
      ''CRITICAL:'', ''HIGH:'', ''MEDIUM:'', ''LOW:'']"

fun strip_first_tag :: "string \<Rightarrow> string" where
  \<comment> \<open>\<open>s.replace(/tag1|tag2|.../, '')\<close>: the leftmost match only\<close>
  "strip_first_tag [] = []"
| "strip_first_tag (c # cs) =
     (case find (startsWith (c # cs)) severity_tags of
        Some t \<Rightarrow> drop (length t) (c # cs)
      | None \<Rightarrow> c # strip_first_tag cs)"

definition has_own_declaration :: "string \<Rightarrow> string \<Rightarrow> bool" where
  "has_own_declaration trimmedCode varName \<longleftrightarrow>
     str_includes trimmedCode (''const '' @ varName @ '' ='')
     \<or> str_includes trimmedCode (''let '' @ varName @ '' ='')
     \<or> str_includes trimmedCode (''var '' @ varName @ '' ='')"

definition defaultValue :: "string \<Rightarrow> string" where
  "defaultValue code =
     (if str_includes code ''.includes('' \<or> str_includes code ''.push('' \<or> str_includes code ''.pop('' then ''[]''
      else if str_includes code ''.length'' then ''[]''
      else if str_includes code ''+ '' \<or> str_includes code ''- '' then ''0''
      else if str_includes code ''toString()'' \<or> str_includes code ''charAt('' then [CHR 0x27, CHR 0x27]
      else ''[]'')"

definition declaration_before :: "string \<Rightarrow> string \<Rightarrow> string \<Rightarrow> string" where
  "declaration_before varName dv trimmedCode =
     ''const '' @ varName @ '' = '' @ dv @ ''; // Auto-fix: Variable declaration'' @ [newline] @ trimmedCode"

definition specificVars :: "string list" where
  "specificVars = [''undeclaredVariable'', ''myUndefinedArray'', ''testUndeclaredVar'',
     ''actuallyUndeclaredVar'', ''reallyUndefinedArray'', ''anotherUndeclaredVar'', ''testData'']"

definition is_undeclared_message :: "string \<Rightarrow> bool" where
  "is_undeclared_message m \<longleftrightarrow> str_includes m ''undeclared variable''
     \<or> str_includes m ''Potential undeclared variable'' \<or> str_includes m ''Test undeclared variable''"

definition undeclared_fix :: "string \<Rightarrow> rule \<Rightarrow> string set \<Rightarrow> string option" where
  \<comment> \<open>the block for undeclared variables: \<open>Some\<close> what it returns, \<open>None\<close> when control
      falls through to the strategies below it\<close>
  "undeclared_fix code pat declaredVariables =
     (let trimmedCode = trim code in
      case (case rx_exec pat code of None \<Rightarrow> None | Some [] \<Rightarrow> None
            | Some (g # gs) \<Rightarrow> if g = [] then None else Some g) of
        Some varName \<Rightarrow>
          if varName \<in> declaredVariables then Some trimmedCode
          else if has_own_declaration trimmedCode varName then Some trimmedCode
          else Some (declaration_before varName (defaultValue code) trimmedCode)
      | None \<Rightarrow>
          (case find (str_includes code) specificVars of
             None \<Rightarrow> None
           | Some varName \<Rightarrow>
               if varName \<in> declaredVariables then Some trimmedCode
               else if has_own_declaration trimmedCode varName then Some trimmedCode
               else Some (declaration_before varName ''[]'' trimmedCode)))"

definition generateSmartFix :: "string \<Rightarrow> rule \<Rightarrow> string set \<Rightarrow> string" where
  "generateSmartFix code pat declaredVariables =
     (let trimmedCode = trim code in
      if str_includes (message pat) ''Console.log'' then comment_console_log trimmedCode
      else case (if is_undeclared_message (message pat)
                 then undeclared_fix code pat declaredVariables else None) of
        Some r \<Rightarrow> r
      | None \<Rightarrow>
          if trimmedCode = ''}'' \<and> str_includes (message pat) ''syntax'' then []
          else if str_includes (message pat) ''var'' then var_to_const trimmedCode
          else if str_includes (message pat) ''semicolon'' then
            (if endsWith trimmedCode ''{'' \<or> endsWith trimmedCode ''}'' then trimmedCode
             else if endsWith trimmedCode '';'' then trimmedCode else trimmedCode @ '';'')
          else trimmedCode @ '' // TODO: Fix: '' @ trim (strip_first_tag (message pat)))"

section \<open>Declared identifiers\<close>

text \<open>
  \<open>/(var|let|const)\s+([a-zA-Z_$][a-zA-Z0-9_$]*)/\<close> at one position: the identifier and the
  length of the match.  At most one of the three keywords fits a position, so the order of
  the alternatives (the per-line pattern of getCopilotReview lists them in reverse) is immaterial.
\<close>

definition keyword_at :: "string \<Rightarrow> string option" where
  "keyword_at s =
     (if startsWith s ''var'' then Some (drop 3 s)
      else if startsWith s ''let'' then Some (drop 3 s)
      else if startsWith s ''const'' then Some (drop 5 s)
      else None)"

definition decl_at :: "string \<Rightarrow> (string \<times> nat) option" where
  "decl_at s =
     (case keyword_at s of None \<Rightarrow> None | Some r \<Rightarrow>
        if takeWhile is_space r = [] then None
        else (case dropWhile is_space r of [] \<Rightarrow> None
              | c # cs \<Rightarrow>
                  if is_ident_start c
                  then Some (c # takeWhile is_ident cs, length s - length (dropWhile is_ident cs))
                  else None))"

fun decl_scan :: "nat \<Rightarrow> string \<Rightarrow> string list" where
  \<comment> \<open>\<open>content.match(/.../g)\<close>: the matches from left to right, none overlapping\<close>
  "decl_scan k [] = []"
| "decl_scan k (c # cs) =
     (if 0 < k then decl_scan (k - 1) cs
      else case decl_at (c # cs) of
             None \<Rightarrow> decl_scan 0 cs
           | Some (v, n) \<Rightarrow> v # decl_scan (n - 1) cs)"

fun decl_first :: "string \<Rightarrow> string option" where
  \<comment> \<open>\<open>line.match(/.../)\<close>: the identifier of the leftmost match\<close>
  "decl_first [] = None"
| "decl_first (c # cs) =
     (case decl_at (c # cs) of None \<Rightarrow> decl_first cs | Some (v, n) \<Rightarrow> Some v)"

text \<open>\<open>/function\s+[a-zA-Z_$][a-zA-Z0-9_$]*\s*\(([^)]+)\)/\<close>: the parameter text and the length.\<close>

definition function_at :: "string \<Rightarrow> (string \<times> nat) option" where
  "function_at s =
     Option.bind (lit ''function'' s) (\<lambda>s1.
     Option.bind (spaces1 s1) (\<lambda>s2.
       case s2 of [] \<Rightarrow> None
       | c # cs \<Rightarrow>
           if \<not> is_ident_start c then None
           else Option.bind (lit ''('' (dropWhile is_space (dropWhile is_ident cs))) (\<lambda>s3.
             if takeWhile (\<lambda>x. x \<noteq> CHR '')'') s3 = [] \<or> dropWhile (\<lambda>x. x \<noteq> CHR '')'') s3 = []
             then None
             else Some (takeWhile (\<lambda>x. x \<noteq> CHR '')'') s3,
                        Suc (length s - length (dropWhile (\<lambda>x. x \<noteq> CHR '')'') s3))))))"

fun function_scan :: "nat \<Rightarrow> string \<Rightarrow> string list" where
  "function_scan k [] = []"
| "function_scan k (c # cs) =
     (if 0 < k then function_scan (k - 1) cs
      else case function_at (c # cs) of
             None \<Rightarrow> function_scan 0 cs
           | Some (ps, n) \<Rightarrow> ps # function_scan (n - 1) cs)"

definition is_identifier :: "string \<Rightarrow> bool" where
  \<comment> \<open>\<open>/^[a-zA-Z_$][a-zA-Z0-9_$]*$/\<close>\<close>
  "is_identifier s = (case s of [] \<Rightarrow> False | c # cs \<Rightarrow> is_ident_start c \<and> list_all is_ident cs)"

definition param_names :: "string \<Rightarrow> string list" where
  "param_names ps =
     filter is_identifier
       (map (\<lambda>param. trim (case splitOn (CHR ''='') (trim param) of [] \<Rightarrow> [] | x # xs \<Rightarrow> x))
            (splitOn (CHR '','') ps))"

definition extractDeclaredVariables :: "string \<Rightarrow> string list" where
  \<comment> \<open>the elements of the returned \<open>Set\<close>\<close>
  "extractDeclaredVariables fileContent =
     decl_scan 0 fileContent @ concat (map param_names (function_scan 0 fileContent))"

section \<open>Issue detection: the fixes of getCopilotReview\<close>

record Fix =
  fx_line :: int
  fx_original :: string
  fx_improved :: string
  fx_file :: string
  fx_pattern :: "string option"
  fx_type :: "string option"

type_synonym fileChanges = "(string \<times> Fix list) list"

fun push_fix :: "fileChanges \<Rightarrow> Fix \<Rightarrow> fileChanges" where
  \<comment> \<open>\<open>if (!m.has(f)) m.set(f, []); m.get(f).push(fix)\<close> on a \<open>Map\<close>, which keeps the order
      in which its keys were first set\<close>
  "push_fix [] x = [(fx_file x, [x])]"
| "push_fix ((k, xs) # m) x = (if k = fx_file x then (k, xs @ [x]) # m else (k, xs) # push_fix m x)"

fun add_once :: "string list \<Rightarrow> string \<Rightarrow> string list" where
  \<comment> \<open>\<open>Set.add\<close>\<close>
  "add_once [] x = [x]"
| "add_once (y # ys) x = (if y = x then y # ys else y # add_once ys x)"

definition modifiedFiles :: "string list \<Rightarrow> string list" where
  "modifiedFiles ls =
     foldl (\<lambda>acc line.
        if startsWith line ''diff --git''
        then (case match_b_path line of None \<Rightarrow> acc | Some m \<Rightarrow> add_once acc (trim m))
        else acc) [] ls"

fun var_dot_search :: "bool \<Rightarrow> string \<Rightarrow> string option" where
  \<comment> \<open>the capture of \<open>/\b([a-zA-Z_$][a-zA-Z0-9_$]+)\s*\./\<close>; the flag says that the character
      before is a word character\<close>
  "var_dot_search w [] = None"
| "var_dot_search w (c # cs) =
     (if w \<noteq> is_word c \<and> is_ident_start c \<and> takeWhile is_ident cs \<noteq> []
         \<and> startsWith (dropWhile is_space (dropWhile is_ident cs)) ''.''
      then Some (c # takeWhile is_ident cs)
      else var_dot_search (is_word c) cs)"

definition fixable :: "rule \<Rightarrow> bool" where
  "fixable pat \<longleftrightarrow> severity pat = Critical \<or> severity pat = High"

definition undeclared_special :: "string \<Rightarrow> bool" where
  "undeclared_special m \<longleftrightarrow>
     str_includes m ''undeclared variable'' \<or> str_includes m ''Test undeclared variable''"

definition staged_fix :: "string \<Rightarrow> string set \<Rightarrow> int \<Rightarrow> string \<Rightarrow> rule \<Rightarrow> Fix" where
  "staged_fix filePath declaredVariables n line pat =
     \<lparr>fx_line = n, fx_original = trim line,
      fx_improved = generateSmartFix line pat declaredVariables,
      fx_file = filePath, fx_pattern = Some (message pat), fx_type = None\<rparr>"

definition scan_rule ::
  "(string \<rightharpoonup> int set) \<Rightarrow> string \<Rightarrow> string set \<Rightarrow> int \<Rightarrow> string \<Rightarrow> rule \<Rightarrow> Fix list" where
  \<comment> \<open>one rule on one line of the file: the fix pushed, if any\<close>
  "scan_rule sc filePath declaredVariables n line pat =
     (if undeclared_special (message pat) then
        (case var_dot_search False line of
           None \<Rightarrow> []
         | Some varName \<Rightarrow>
             if varName \<notin> declaredVariables \<and> rx_test pat line then
               (if staged_has sc filePath n \<and> fixable pat
                then [staged_fix filePath declaredVariables n line pat] else [])
             else [])
      else if rx_test pat line then
        (if staged_has sc filePath n \<and> fixable pat
         then [staged_fix filePath declaredVariables n line pat] else [])
      else [])"

definition scan_line ::
  "rule list \<Rightarrow> (string \<rightharpoonup> int set) \<Rightarrow> string \<Rightarrow> string set \<Rightarrow> int \<Rightarrow> string \<Rightarrow> Fix list" where
  "scan_line patterns sc filePath declaredVariables n line =
     (if trim line \<noteq> [] \<and> \<not> startsWith (trim line) ''//'' \<and> \<not> startsWith (trim line) ''*''
      then concat (map (scan_rule sc filePath declaredVariables n line) patterns)
      else [])"

definition declared_in_file :: "string \<Rightarrow> string set" where
  \<comment> \<open>\<open>extractDeclaredVariables(fileContent)\<close> plus the first declaration of every line\<close>
  "declared_in_file fileContent =
     set (extractDeclaredVariables fileContent)
       \<union> set (List.map_filter decl_first (split_lines fileContent))"

definition scan_file ::
  "rule list \<Rightarrow> (string \<rightharpoonup> int set) \<Rightarrow> string \<Rightarrow> string \<Rightarrow> Fix list" where
  "scan_file patterns sc filePath fileContent =
     concat (map (\<lambda>(lineIndex, line).
                scan_line patterns sc filePath (declared_in_file fileContent) (int lineIndex + 1) line)
             (enumerate 0 (split_lines fileContent)))"

definition staged_pass :: "rule list \<Rightarrow> (string \<rightharpoonup> string) \<Rightarrow> string \<Rightarrow> Fix list" where
  \<comment> \<open>step 2: every modified file that exists and can be read (\<open>readf\<close>), in the order of
      \<open>modifiedFiles\<close>\<close>
  "staged_pass patterns readf diff =
     concat (map (\<lambda>filePath.
                case readf filePath of
                  None \<Rightarrow> []
                | Some fileContent \<Rightarrow> scan_file patterns (stagedChanges diff) filePath fileContent)
             (modifiedFiles (split_lines diff)))"

definition fileVariables :: "(string \<rightharpoonup> string) \<Rightarrow> string list \<Rightarrow> string \<Rightarrow> string set" where
  \<comment> \<open>\<open>fileVariables.get(fileName) || new Set()\<close>: only modified files that exist have an entry\<close>
  "fileVariables readf files fileName =
     (if fileName \<in> set files
      then (case readf fileName of None \<Rightarrow> {} | Some fileContent \<Rightarrow> set (extractDeclaredVariables fileContent))
      else {})"

definition legacy_fix :: "string \<Rightarrow> string set \<Rightarrow> nat \<Rightarrow> string \<Rightarrow> rule \<Rightarrow> Fix" where
  "legacy_fix fileName declaredVariables index code pat =
     \<lparr>fx_line = int index + 1, fx_original = trim code,
      fx_improved = generateSmartFix code pat declaredVariables,
      fx_file = fileName, fx_pattern = None, fx_type = Some (severity_name (severity pat) @ ''-fix'')\<rparr>"

definition legacy_rule :: "(string \<Rightarrow> string set) \<Rightarrow> string \<Rightarrow> nat \<Rightarrow> string \<Rightarrow> rule \<Rightarrow> Fix list" where
  "legacy_rule fv currentFile index code pat =
     (if rx_test pat code \<and> fixable pat
      then [legacy_fix (if currentFile = [] then ''index.js'' else currentFile)
              (fv (if currentFile = [] then ''index.js'' else currentFile)) index code pat]
      else [])"

definition track_file :: "string \<Rightarrow> string \<Rightarrow> string" where
  \<comment> \<open>the file named by a \<open>diff --git\<close> line becomes the current one\<close>
  "track_file currentFile line =
     (if startsWith line ''diff --git''
      then (case match_b_path line of None \<Rightarrow> [] | Some m \<Rightarrow> trim m)
      else currentFile)"

fun legacy_scan :: "rule list \<Rightarrow> (string \<Rightarrow> string set) \<Rightarrow> string \<Rightarrow> nat \<Rightarrow> string list \<Rightarrow> Fix list" where
  \<comment> \<open>the pass over the lines of the diff itself; \<open>index\<close> counts the lines of the diff\<close>
  "legacy_scan patterns fv currentFile index [] = []"
| "legacy_scan patterns fv currentFile index (line # ls) =
     (if is_addition line \<and> trim (drop 1 line) \<noteq> []
      then concat (map (legacy_rule fv (track_file currentFile line) index (drop 1 line)) patterns)
      else [])
     @ legacy_scan patterns fv (track_file currentFile line) (Suc index) ls"

definition legacy_pass :: "rule list \<Rightarrow> (string \<rightharpoonup> string) \<Rightarrow> string \<Rightarrow> Fix list" where
  "legacy_pass patterns readf diff =
     legacy_scan patterns (fileVariables readf (modifiedFiles (split_lines diff))) [] 0 (split_lines diff)"

definition getCopilotReview :: "rule list \<Rightarrow> (string \<rightharpoonup> string) \<Rightarrow> string \<Rightarrow> fileChanges" where
  \<comment> \<open>the \<open>fileChanges\<close> map when getCopilotReview builds its feedback\<close>
  "getCopilotReview patterns readf diff =
     foldl push_fix [] (staged_pass patterns readf diff @ legacy_pass patterns readf diff)"

text \<open>
  The section of the feedback that lists the fixes, line by line; \<open>arrow\<close> is U+2192.
\<close>

definition arrow :: string where
  "arrow = [CHR 0xE2, CHR 0x86, CHR 0x92]"

fun digits_of :: "nat \<Rightarrow> nat \<Rightarrow> string" where
  \<comment> \<open>decimal digits, most significant first; the first argument bounds the recursion\<close>
  "digits_of 0 n = []"
| "digits_of (Suc k) n =
     (if n < 10 then [char_of (48 + n)] else digits_of k (n div 10) @ [char_of (48 + n mod 10)])"

definition show_int :: "int \<Rightarrow> string" where
  "show_int i = (if i < 0 then CHR ''-'' # digits_of (Suc (nat (- i))) (nat (- i))
                 else digits_of (Suc (nat i)) (nat i))"

definition fix_line :: "Fix \<Rightarrow> string" where
  "fix_line change = ''Line '' @ show_int (fx_line change) @ '': '' @ trim (fx_original change)
     @ '' '' @ arrow @ '' '' @ trim (fx_improved change)"

definition auto_applicable_lines :: "fileChanges \<Rightarrow> string list" where
  \<comment> \<open>the lines that follow \<open>AUTO_APPLICABLE_FIXES\<close>; present when the map is not empty\<close>
  "auto_applicable_lines fc =
     concat (map (\<lambda>(file, changes). (''File: '' @ file) # map fix_line changes) fc)"

subsection \<open>Three rules of the catalogue\<close>

fun lower :: "char \<Rightarrow> char" where
  "lower c = (if is_upper c then char_of (of_char c + (32::nat)) else c)"

fun startsWith_ci :: "string \<Rightarrow> string \<Rightarrow> bool" where
  \<comment> \<open>as \<open>startsWith\<close>, letters compared without case (the \<open>i\<close> flag)\<close>
  "startsWith_ci s [] = True"
| "startsWith_ci [] (p # ps) = False"
| "startsWith_ci (c # cs) (p # ps) = (lower c = lower p \<and> startsWith_ci cs ps)"

fun search_ci :: "string \<Rightarrow> string \<Rightarrow> bool" where
  "search_ci p [] = (p = [])"
| "search_ci p (c # cs) = (startsWith_ci (c # cs) p \<or> search_ci p cs)"

definition http_rule :: rule where
  \<comment> \<open>\<open>/http:\/\//i\<close>\<close>
  "http_rule = \<lparr>rx_exec = (\<lambda>s. if search_ci ''http://'' s then Some [] else None),
     message = ''Insecure HTTP protocol'', severity = High,
     fix_hint = ''Use HTTPS for all external requests''\<rparr>"

definition test_words :: "string list" where
  "test_words = [''undeclaredVariable'', ''myUndefinedArray'', ''testVariable'', ''invalidVar'',
     ''testUndeclaredVar'']"

definition word_after :: "string \<Rightarrow> bool" where
  \<comment> \<open>whether the text starts with a word character\<close>
  "word_after s = (case s of [] \<Rightarrow> False | c # cs \<Rightarrow> is_word c)"

fun test_word_search :: "bool \<Rightarrow> string \<Rightarrow> string list option" where
  \<comment> \<open>\<open>/\b(w1|w2|...)\b/i\<close>: the first alternative that fits at the leftmost position and
      ends at a word boundary\<close>
  "test_word_search w [] = None"
| "test_word_search w (c # cs) =
     (case (if w then None
            else find (\<lambda>t. startsWith_ci (c # cs) t \<and> \<not> word_after (drop (length t) (c # cs)))
                   test_words) of
        Some t \<Rightarrow> Some [take (length t) (c # cs)]
      | None \<Rightarrow> test_word_search (is_word c) cs)"

definition test_variable_rule :: rule where
  "test_variable_rule = \<lparr>rx_exec = test_word_search False,
     message = [CHR 0xF0, CHR 0x9F, CHR 0x9A, CHR 0xA8]
       @ '' CRITICAL: Test undeclared variable detected - will cause ReferenceError'',
     severity = Critical,
     fix_hint = ''Declare the variable before use or remove test code''\<rparr>"

fun long_name_search :: "bool \<Rightarrow> string \<Rightarrow> string list option" where
  \<comment> \<open>\<open>/\b([a-zA-Z_$][a-zA-Z0-9_$]{10,})\s*\./i\<close>\<close>
  "long_name_search w [] = None"
| "long_name_search w (c # cs) =
     (if w \<noteq> is_word c \<and> is_ident_start c \<and> 10 \<le> length (takeWhile is_ident cs)
         \<and> startsWith (dropWhile is_space (dropWhile is_ident cs)) ''.''
      then Some [c # takeWhile is_ident cs]
      else long_name_search (is_word c) cs)"

definition long_name_rule :: rule where
  "long_name_rule = \<lparr>rx_exec = long_name_search False,
     message = [CHR 0xF0, CHR 0x9F, CHR 0x9A, CHR 0xA8]
       @ '' CRITICAL: Long variable name detected - likely undeclared'',
     severity = Critical,
     fix_hint = ''Declare variable: const $1 = ...; or check for typos''\<rparr>"

definition state_before :: "string list \<Rightarrow> nat \<Rightarrow> hstate" where
  \<comment> \<open>the state of the mapper when it reaches line \<open>i\<close> of the diff\<close>
  "state_before ls i = hunk_run (take i ls)"

section \<open>Patch applier\<close>

text \<open>
  A fix as the appliers receive it, parsed from the feedback text: \<open>{filename, line, original,
  improved}\<close>, with \<open>type\<close> on the fallback entry and \<open>code\<close> on a whole-file suggestion.
  A field that is absent on the object is the empty string, which is as falsy.
\<close>

record AutoFix =
  af_filename :: string
  af_line :: int
  af_original :: string
  af_improved :: string
  af_type :: "string option"
  af_code :: "string option"

fun split_first :: "string \<Rightarrow> string \<Rightarrow> (string \<times> string) option" where
  \<comment> \<open>the text before and after the first occurrence of \<open>pat\<close>\<close>
  "split_first pat [] = (if pat = [] then Some ([], []) else None)"
| "split_first pat (c # cs) =
     (if startsWith (c # cs) pat then Some ([], drop (length pat) (c # cs))
      else (case split_first pat cs of None \<Rightarrow> None | Some (b, a) \<Rightarrow> Some (c # b, a)))"

fun expand_replacement :: "string \<Rightarrow> string \<Rightarrow> string \<Rightarrow> string \<Rightarrow> string" where
  \<comment> \<open>the replacement patterns of \<open>String.prototype.replace\<close> when the pattern is a string:
      \<open>$$\<close>, \<open>$&\<close>, \<open>$`\<close> and \<open>$'\<close>; there are no captures, so \<open>$1\<close> stays as it is\<close>
  "expand_replacement m b a [] = []"
| "expand_replacement m b a [c] = [c]"
| "expand_replacement m b a (c # d # r) =
     (if c = CHR ''$'' \<and> d = CHR ''$'' then CHR ''$'' # expand_replacement m b a r
      else if c = CHR ''$'' \<and> d = CHR ''&'' then m @ expand_replacement m b a r
      else if c = CHR ''$'' \<and> d = CHR 0x60 then b @ expand_replacement m b a r
      else if c = CHR ''$'' \<and> d = CHR 0x27 then a @ expand_replacement m b a r
      else c # expand_replacement m b a (d # r))"

definition js_replace :: "string \<Rightarrow> string \<Rightarrow> string \<Rightarrow> string" where
  \<comment> \<open>\<open>content.replace(original, improved)\<close> with two strings\<close>
  "js_replace content original improved =
     (case split_first original content of
        None \<Rightarrow> content
      | Some (b, a) \<Rightarrow> b @ expand_replacement original b a improved @ a)"

definition sortedFixes :: "AutoFix list \<Rightarrow> AutoFix list" where
  \<comment> \<open>\<open>fixes.sort((a, b) => b.line - a.line)\<close>; the sort is stable\<close>
  "sortedFixes fixes = sort_key (\<lambda>f. - af_line f) fixes"

definition apply_in_order :: "string \<Rightarrow> AutoFix list \<Rightarrow> string" where
  \<comment> \<open>\<open>for (const fix of fixes) content = content.replace(fix.original, fix.improved)\<close>\<close>
  "apply_in_order content fixes =
     foldl (\<lambda>modifiedContent f. js_replace modifiedContent (af_original f) (af_improved f)) content fixes"

definition apply_fixes :: "string \<Rightarrow> AutoFix list \<Rightarrow> string" where
  "apply_fixes originalContent fixes = apply_in_order originalContent (sortedFixes fixes)"

fun group_fix :: "(string \<times> AutoFix list) list \<Rightarrow> AutoFix \<Rightarrow> (string \<times> AutoFix list) list" where
  \<comment> \<open>\<open>if (!m.has(fix.filename)) m.set(fix.filename, []); m.get(fix.filename).push(fix)\<close>\<close>
  "group_fix [] x = [(af_filename x, [x])]"
| "group_fix ((k, xs) # m) x =
     (if k = af_filename x then (k, xs @ [x]) # m else (k, xs) # group_fix m x)"

definition group_by_file :: "AutoFix list \<Rightarrow> (string \<times> AutoFix list) list" where
  "group_by_file fixes = foldl group_fix [] fixes"

definition isStaged :: "string list \<Rightarrow> string \<Rightarrow> bool" where
  \<comment> \<open>\<open>stagedFiles.some(file => file.endsWith(filename) || file === filename)\<close>\<close>
  "isStaged stagedFiles filename \<longleftrightarrow>
     list_ex (\<lambda>file. endsWith file filename \<or> file = filename) stagedFiles"

text \<open>
  The world the appliers act on: the files by resolved path, the \<open>git add\<close> and
  \<open>git commit\<close> calls made, and the prompts shown.  What the session is given from outside
  is the environment: how a file name resolves against the working directory, the policy
  \<open>AI_DEFAULT_ON_CANCEL\<close> in lower case, whether the terminal is interactive, what each
  prompt returns, the branch name and whether \<open>git commit\<close> succeeds.  Reading a path that
  holds no file fails; writing, unlinking and \<open>git add\<close> succeed.  A file is the list of its
  bytes.  applyAISuggestions, whose backups are compared with the files byte by byte, reads
  through the decoder (\<open>utf8_text\<close> below); the other readers are modelled on files that the
  decoder leaves as they are.
\<close>

record world =
  files :: "string \<rightharpoonup> string"
  added :: "string list"
  commits :: "(string \<times> string list) list"
  prompted :: "string list"

datatype 'a answer = Cancelled | Answered 'a

datatype decision = AutoApply | KeepLocal | ReviewOnly | SkipValidation | CancelCommit

record env =
  resolve :: "string \<Rightarrow> string"
  DEFAULT_ON_CANCEL :: string
  nonInteractive :: bool
  forcePrompt :: bool
  apply_answer :: "string \<Rightarrow> bool answer"
  confirmRecommit_answer :: "bool answer"
  confirmCommit_answer :: "bool answer"
  enhancedDecision_answer :: "decision answer"
  branchName :: string
  commit_succeeds :: bool

definition write_file :: "string \<Rightarrow> string \<Rightarrow> world \<Rightarrow> world" where
  "write_file path content w = w\<lparr>files := (files w)(path \<mapsto> content)\<rparr>"

definition unlink :: "string \<Rightarrow> world \<Rightarrow> world" where
  "unlink path w = w\<lparr>files := (files w)(path := None)\<rparr>"

definition git_add :: "string \<Rightarrow> world \<Rightarrow> world" where
  "git_add filename w = w\<lparr>added := added w @ [filename]\<rparr>"

definition ask :: "string \<Rightarrow> world \<Rightarrow> world" where
  "ask name w = w\<lparr>prompted := prompted w @ [name]\<rparr>"

definition interactiveReviewAndApply :: "env \<Rightarrow> string \<Rightarrow> world \<Rightarrow> bool \<times> world" where
  "interactiveReviewAndApply e filename w =
     (if nonInteractive e \<and> \<not> forcePrompt e then
        (if DEFAULT_ON_CANCEL e = ''auto-apply'' then (True, w)
         else if DEFAULT_ON_CANCEL e = ''skip'' then (False, w)
         else (False, w))
      else
        (case apply_answer e filename of
           Cancelled \<Rightarrow>
             (if DEFAULT_ON_CANCEL e = ''auto-apply'' then (True, ask ''apply'' w)
              else if DEFAULT_ON_CANCEL e = ''skip'' then (False, ask ''apply'' w)
              else (False, ask ''apply'' w))
         | Answered b \<Rightarrow> (b, ask ''apply'' w)))"

subsection \<open>autoApplyAndRecommit\<close>

definition ticket_at :: "string \<Rightarrow> string option" where
  \<comment> \<open>\<open>/([A-Z]+-\d+)/\<close> at one position\<close>
  "ticket_at s =
     (if takeWhile is_upper s = [] then None
      else (case dropWhile is_upper s of
              [] \<Rightarrow> None
            | c # cs \<Rightarrow>
                if c = CHR ''-'' \<and> takeWhile is_digit cs \<noteq> []
                then Some (takeWhile is_upper s @ CHR ''-'' # takeWhile is_digit cs)
                else None))"

fun ticket_search :: "string \<Rightarrow> string option" where
  \<comment> \<open>\<open>branchName.match(/([A-Z]+-\d+)/)\<close>\<close>
  "ticket_search [] = None"
| "ticket_search (c # cs) =
     (case ticket_at (c # cs) of None \<Rightarrow> ticket_search cs | Some t \<Rightarrow> Some t)"

definition commitMessage :: "string \<Rightarrow> nat \<Rightarrow> string" where
  "commitMessage branch fixCount =
     (case ticket_search branch of None \<Rightarrow> ''SHOP-0000'' | Some t \<Rightarrow> t)
       @ ''-apply-copilot-improvements-'' @ show_int (int fixCount) @ ''-files''"

definition auto_apply_file ::
  "env \<Rightarrow> string list \<Rightarrow> world \<times> (string \<times> string) list \<Rightarrow> string \<times> AutoFix list
     \<Rightarrow> world \<times> (string \<times> string) list" where
  \<comment> \<open>one round of the loop over the files; the second component is \<open>appliedFiles\<close>,
      each entry a file name and its backup path\<close>
  "auto_apply_file e stagedFiles st entry =
     (case st of (w, appliedFiles) \<Rightarrow> case entry of (filename, fixes) \<Rightarrow>
      if isStaged stagedFiles filename then
        (case files w (resolve e filename) of
           None \<Rightarrow> (w, appliedFiles)
         | Some originalContent \<Rightarrow>
             (case interactiveReviewAndApply e filename
                     (write_file (resolve e filename @ ''.copilot-backup'') originalContent w) of
                (accepted, w1) \<Rightarrow>
                  if \<not> accepted then (w1, appliedFiles)
                  else (write_file (resolve e filename) (apply_fixes originalContent fixes) w1,
                        appliedFiles @ [(filename, resolve e filename @ ''.copilot-backup'')])))
      else (w, appliedFiles))"

definition recommit :: "env \<Rightarrow> (string \<times> string) list \<Rightarrow> world \<Rightarrow> int \<times> world" where
  \<comment> \<open>the part of autoApplyAndRecommit after the loop; the result is the exit code\<close>
  "recommit e appliedFiles w =
     (if appliedFiles \<noteq> [] then
        (let w1 = ask ''confirmRecommit'' (foldl (\<lambda>w file. git_add (fst file) w) w appliedFiles);
             msg = commitMessage (branchName e) (length appliedFiles);
             shouldCommit = (case confirmRecommit_answer e of Cancelled \<Rightarrow> True | Answered b \<Rightarrow> b)
         in if shouldCommit then
              (let w2 = w1\<lparr>commits := commits w1 @ [(msg, [''--no-verify''])]\<rparr>
               in if commit_succeeds e
                  then (0, foldl (\<lambda>w file. unlink (snd file) w) w2 appliedFiles)
                  else (1, w2))
            else (0, w1))
      else (1, w))"

definition auto_apply_loop ::
  "env \<Rightarrow> string list \<Rightarrow> AutoFix list \<Rightarrow> world \<Rightarrow> world \<times> (string \<times> string) list" where
  \<comment> \<open>the loop over the files, by file name in the order of first mention\<close>
  "auto_apply_loop e stagedFiles autoFixes w =
     foldl (auto_apply_file e stagedFiles) (w, []) (group_by_file autoFixes)"

definition is_fallback :: "AutoFix list \<Rightarrow> bool" where
  \<comment> \<open>\<open>autoFixes.length > 0 && autoFixes[0].type === 'fallback'\<close>\<close>
  "is_fallback autoFixes = (case autoFixes of [] \<Rightarrow> False | f # fs \<Rightarrow> af_type f = Some ''fallback'')"

definition autoApplyAndRecommit :: "env \<Rightarrow> AutoFix list \<Rightarrow> string list \<Rightarrow> world \<Rightarrow> int \<times> world" where
  "autoApplyAndRecommit e autoFixes stagedFiles w =
     (if is_fallback autoFixes then (1, w)
      else (case auto_apply_loop e stagedFiles autoFixes w of
              (w1, appliedFiles) \<Rightarrow> recommit e appliedFiles w1))"

subsection \<open>applyAutoFixesNoCommit\<close>

definition save_file :: "env \<Rightarrow> string list \<Rightarrow> world \<Rightarrow> string \<times> AutoFix list \<Rightarrow> world" where
  "save_file e stagedFiles w entry =
     (case entry of (filename, fixes) \<Rightarrow>
      if \<not> isStaged stagedFiles filename then w
      else (case files w (resolve e filename) of
              None \<Rightarrow> w
            | Some originalContent \<Rightarrow>
                git_add filename (write_file (resolve e filename) (apply_fixes originalContent fixes) w)))"

definition applyAutoFixesNoCommit :: "env \<Rightarrow> AutoFix list \<Rightarrow> string list \<Rightarrow> world \<Rightarrow> world" where
  "applyAutoFixesNoCommit e autoFixes stagedFiles w =
     foldl (save_file e stagedFiles) w (group_by_file autoFixes)"

subsection \<open>applyAISuggestions\<close>

definition modified_content :: "string \<Rightarrow> AutoFix list \<Rightarrow> string" where
  \<comment> \<open>a whole-file suggestion wins; otherwise the fixes that have both texts\<close>
  "modified_content originalContent fixes =
     (case List.map_filter af_code fixes of
        code # rest \<Rightarrow> code
      | [] \<Rightarrow> apply_fixes originalContent
                (filter (\<lambda>f. af_original f \<noteq> [] \<and> af_improved f \<noteq> []) fixes))"

text \<open>
  \<open>fs.readFile(path, 'utf8')\<close> decodes the bytes of the file, and \<open>fs.writeFile\<close> encodes the
  text again.  \<open>utf8_text\<close> is the two in a row: the bytes a file holds once the text read
  from the given bytes has been written.  A well-formed UTF-8 sequence comes back as it is;
  what is ill-formed comes back as the three bytes of U+FFFD.  The decoder is the one of the
  Encoding Standard: a lead byte \<open>C2..DF\<close>, \<open>E0..EF\<close> or \<open>F0..F4\<close> asks for one, two or three
  continuation bytes; the first of them has a narrower range after \<open>E0\<close>, \<open>ED\<close>, \<open>F0\<close> and
  \<open>F4\<close>; a byte that cannot continue the sequence ends it with one replacement character and
  is decoded afresh; so does the end of the file.
\<close>

definition in_range :: "nat \<Rightarrow> nat \<Rightarrow> char \<Rightarrow> bool" where
  "in_range lo hi c \<longleftrightarrow> lo \<le> (of_char c :: nat) \<and> (of_char c :: nat) \<le> hi"

definition replacement :: string where
  \<comment> \<open>U+FFFD in UTF-8\<close>
  "replacement = [CHR 0xEF, CHR 0xBF, CHR 0xBD]"

definition second_lower :: "char \<Rightarrow> nat" where
  "second_lower b = (if b = CHR 0xE0 then 0xA0 else if b = CHR 0xF0 then 0x90 else 0x80)"

definition second_upper :: "char \<Rightarrow> nat" where
  "second_upper b = (if b = CHR 0xED then 0x9F else if b = CHR 0xF4 then 0x8F else 0xBF)"

fun utf8_text :: "string \<Rightarrow> string" where
  "utf8_text [] = []"
| "utf8_text (b # bs) =
     (if in_range 0x00 0x7F b then b # utf8_text bs
      else if in_range 0xC2 0xDF b then
        (case bs of
           [] \<Rightarrow> replacement
         | c1 # r1 \<Rightarrow>
             if in_range 0x80 0xBF c1 then b # c1 # utf8_text r1
             else replacement @ utf8_text bs)
      else if in_range 0xE0 0xEF b then
        (case bs of
           [] \<Rightarrow> replacement
         | c1 # r1 \<Rightarrow>
             if \<not> in_range (second_lower b) (second_upper b) c1 then replacement @ utf8_text bs
             else (case r1 of
                     [] \<Rightarrow> replacement
                   | c2 # r2 \<Rightarrow>
                       if in_range 0x80 0xBF c2 then b # c1 # c2 # utf8_text r2
                       else replacement @ utf8_text r1))
      else if in_range 0xF0 0xF4 b then
        (case bs of
           [] \<Rightarrow> replacement
         | c1 # r1 \<Rightarrow>
             if \<not> in_range (second_lower b) (second_upper b) c1 then replacement @ utf8_text bs
             else (case r1 of
                     [] \<Rightarrow> replacement
                   | c2 # r2 \<Rightarrow>
                       if \<not> in_range 0x80 0xBF c2 then replacement @ utf8_text r1
                       else (case r2 of
                               [] \<Rightarrow> replacement
                             | c3 # r3 \<Rightarrow>
                                 if in_range 0x80 0xBF c3 then b # c1 # c2 # c3 # utf8_text r3
                                 else replacement @ utf8_text r2)))
      else replacement @ utf8_text bs)"

definition ai_apply_file ::
  "env \<Rightarrow> string list \<Rightarrow> world \<times> (string \<times> string) list \<Rightarrow> string \<times> AutoFix list
     \<Rightarrow> world \<times> (string \<times> string) list" where
  \<comment> \<open>one round of the loop over the files: \<open>originalContent\<close> is the text read, and both the
      backup and the file are written from text\<close>
  "ai_apply_file e stagedFiles st entry =
     (case st of (w, appliedFiles) \<Rightarrow> case entry of (filename, fixes) \<Rightarrow>
      if \<not> isStaged stagedFiles filename then (w, appliedFiles)
      else (case map_option utf8_text (files w (resolve e filename)) of
              None \<Rightarrow> (w, appliedFiles)
            | Some originalContent \<Rightarrow>
                (write_file (resolve e filename) (modified_content originalContent fixes)
                   (write_file (resolve e filename @ ''.ai-backup'') originalContent w),
                 appliedFiles @ [(filename, resolve e filename @ ''.ai-backup'')])))"

definition ai_apply_all ::
  "env \<Rightarrow> string list \<Rightarrow> (string \<times> AutoFix list) list \<Rightarrow> world \<Rightarrow> world \<times> (string \<times> string) list" where
  "ai_apply_all e stagedFiles fileChanges w = foldl (ai_apply_file e stagedFiles) (w, []) fileChanges"

definition restore_file :: "env \<Rightarrow> world \<Rightarrow> string \<times> string \<Rightarrow> world" where
  \<comment> \<open>read the backup, write it over the file, remove the backup, stage the file again;
      a backup that cannot be read leaves this file as it is\<close>
  "restore_file e w file =
     (case map_option utf8_text (files w (snd file)) of
        None \<Rightarrow> w
      | Some backupContent \<Rightarrow>
          git_add (fst file) (unlink (snd file) (write_file (resolve e (fst file)) backupContent w)))"

definition applyAISuggestions :: "env \<Rightarrow> AutoFix list \<Rightarrow> string list \<Rightarrow> world \<Rightarrow> int \<times> world" where
  "applyAISuggestions e suggestedFixes stagedFiles w =
     (case ai_apply_all e stagedFiles (group_by_file suggestedFixes) w of
        (w1, appliedFiles) \<Rightarrow>
          if appliedFiles \<noteq> [] then
            (let w2 = ask ''confirmCommit'' (foldl (\<lambda>w file. git_add (fst file) w) w1 appliedFiles)
             in case confirmCommit_answer e of
                  Answered True \<Rightarrow> (0, foldl (\<lambda>w file. unlink (snd file) w) w2 appliedFiles)
                | Answered False \<Rightarrow> (1, foldl (restore_file e) w2 appliedFiles)
                | Cancelled \<Rightarrow> (0, foldl (\<lambda>w file. unlink (snd file) w) w2 appliedFiles))
          else (1, w1))"

section \<open>validateCommit\<close>

subsection \<open>detectSkipDirective\<close>

definition skip_directives :: "(string \<times> string) list" where
  \<comment> \<open>the alternatives of the built-in pattern, each \<open>left\s*:\s*right\<close>\<close>
  "skip_directives = [(''ai-review'', ''skip''), (''commit-validator'', ''bypass''),
     (''hotfix'', ''no-review''), (''emergency'', ''skip-validation''),
     (''generated'', ''no-validation''), (''third-party'', ''skip-review''),
     (''legacy'', ''no-validation''), (''prototype'', ''skip-checks'')]"

definition directive_at :: "string \<Rightarrow> string \<times> string \<Rightarrow> bool" where
  "directive_at s d =
     (startsWith_ci s (fst d)
      \<and> startsWith (dropWhile is_space (drop (length (fst d)) s)) '':''
      \<and> startsWith_ci
            (dropWhile is_space (drop 1 (dropWhile is_space (drop (length (fst d)) s)))) (snd d))"

fun default_skip_test :: "string \<Rightarrow> bool" where
  \<comment> \<open>\<open>/\/\/\s*(ai-review\s*:\s*skip|...)/i\<close> anywhere in the content\<close>
  "default_skip_test [] = False"
| "default_skip_test (c # cs) =
     (startsWith (c # cs) ''//'' \<and> list_ex (directive_at (dropWhile is_space (drop 1 cs))) skip_directives
      \<or> default_skip_test cs)"

definition detectSkipDirective :: "(string \<Rightarrow> bool) option \<Rightarrow> (string \<Rightarrow> string) \<Rightarrow> world \<Rightarrow> string list \<Rightarrow> bool" where
  \<comment> \<open>the \<open>skip\<close> field of the result; \<open>custom\<close> is the test of the pattern compiled from
      \<open>AI_SKIP_DIRECTIVE_REGEX\<close> when that variable is set\<close>
  "detectSkipDirective custom rp w stagedFiles \<longleftrightarrow>
     list_ex (\<lambda>file. case files w (rp file) of
                        None \<Rightarrow> False
                      | Some content \<Rightarrow>
                          (case custom of None \<Rightarrow> default_skip_test content | Some t \<Rightarrow> t content))
             stagedFiles"

subsection \<open>filterMeaningfulChanges\<close>

definition EXCLUDED_FILES :: "string list" where
  "EXCLUDED_FILES = [''package-lock.json'', ''yarn.lock'', ''pnpm-lock.yaml'', ''.gitignore'',
     ''.env'', ''.env.local'', ''.env.example'', ''node_modules/'', ''.git/'', ''dist/'', ''build/'',
     ''.next/'', ''coverage/'', ''*.min.js'', ''*.map'', ''.DS_Store'', ''Thumbs.db'']"

fun dot_match :: "string \<Rightarrow> string \<Rightarrow> bool" where
  \<comment> \<open>a pattern of literal characters and \<open>.\<close> (any character that ends no line), at the
      start of the text\<close>
  "dot_match [] s = True"
| "dot_match (p # ps) [] = False"
| "dot_match (p # ps) (c # cs) =
     ((if p = CHR ''.'' then \<not> is_line_terminator c else p = c) \<and> dot_match ps cs)"

fun dot_search :: "string \<Rightarrow> string \<Rightarrow> bool" where
  "dot_search p [] = (p = [])"
| "dot_search p (c # cs) = (dot_match p (c # cs) \<or> dot_search p cs)"

definition excluded_by :: "string \<Rightarrow> string \<Rightarrow> bool" where
  \<comment> \<open>one entry of the list against one line.  An entry with \<open>*\<close> becomes the pattern
      \<open>new RegExp(pattern.replace('*', '.*'))\<close>; both such entries start with the \<open>*\<close>, and
      a leading \<open>.*\<close> of a search matches the empty text\<close>
  "excluded_by line pattern =
     (if endsWith pattern ''/'' then
        str_includes line (CHR ''/'' # pattern) \<or> str_includes line (CHR 0x5C # pattern)
      else if str_includes pattern ''*'' then dot_search (drop 1 pattern) line
      else str_includes line pattern)"

definition meaningful :: "string \<Rightarrow> bool" where
  \<comment> \<open>the predicate of the filter\<close>
  "meaningful line =
     (if str_includes line ''Binary files'' \<and> str_includes line ''differ'' then False
      else if list_ex (excluded_by line) EXCLUDED_FILES then False
      else if startsWith line ''+'' \<or> startsWith line ''-'' then
        (if trim (drop 1 line) = [] \<or> startsWith (trim (drop 1 line)) ''//''
            \<or> startsWith (trim (drop 1 line)) ''/*''
         then False else True)
      else startsWith line ''@@'' \<or> startsWith line ''diff --git'' \<or> startsWith line ''index''
           \<or> startsWith line ''---'' \<or> startsWith line ''+++'')"

definition filterMeaningfulChanges :: "string \<Rightarrow> string" where
  "filterMeaningfulChanges diff = join_lines (filter meaningful (split_lines diff))"

subsection \<open>The workflow\<close>

text \<open>
  What validateCommit uses of the feedback text: whether it holds the check mark, whether it
  holds \<open>CRITICAL\<close> or the red circle, and the fixes that parseAutoApplicableFixes reads from
  it.  The review itself, localCodeAnalysis and applyToNewFiles are taken from outside
  (\<open>collaborators\<close>): the review gives no feedback when it throws.
\<close>

record feedback =
  fb_ok :: bool
  fb_critical :: bool
  fb_fixes :: "AutoFix list"

record collaborators =
  has_token :: bool
  custom_skip :: "(string \<Rightarrow> bool) option"
  review :: "string \<Rightarrow> feedback option"
  localCodeAnalysis :: "string \<Rightarrow> world \<Rightarrow> int \<times> world"
  applyToNewFiles :: "AutoFix list \<Rightarrow> string list \<Rightarrow> world \<Rightarrow> int \<times> world"

definition fallback_fix :: AutoFix where
  "fallback_fix = \<lparr>af_filename = ''index.js'', af_line = 1, af_original = ''critical issues detected'',
     af_improved = ''manual fix required'', af_type = Some ''fallback'', af_code = None\<rparr>"

definition with_filename :: "string list \<Rightarrow> AutoFix \<Rightarrow> AutoFix" where
  \<comment> \<open>\<open>{...f, filename: f.filename || single || 'index.js'}\<close>\<close>
  "with_filename stagedFiles f =
     (if af_filename f \<noteq> [] then f
      else (case stagedFiles of
              [single] \<Rightarrow> if single \<noteq> [] then f\<lparr>af_filename := single\<rparr> else f\<lparr>af_filename := ''index.js''\<rparr>
            | _ \<Rightarrow> f\<lparr>af_filename := ''index.js''\<rparr>))"

definition timeout_decision :: "string \<Rightarrow> decision" where
  \<comment> \<open>what the workflow prompt resolves to when it times out or is cancelled\<close>
  "timeout_decision policy =
     (if policy = ''auto-apply'' then AutoApply
      else if policy = ''skip'' then SkipValidation
      else ReviewOnly)"

definition enhancedWorkflow ::
  "env \<Rightarrow> collaborators \<Rightarrow> feedback \<Rightarrow> string list \<Rightarrow> world \<Rightarrow> int \<times> world" where
  "enhancedWorkflow e c fb stagedFiles w =
     (let effectiveFixes =
            (if fb_fixes fb = [] \<and> fb_critical fb then [fallback_fix] else fb_fixes fb);
          w1 = ask ''enhancedDecision'' w;
          enhancedDecision =
            (case enhancedDecision_answer e of
               Cancelled \<Rightarrow> timeout_decision (DEFAULT_ON_CANCEL e)
             | Answered d \<Rightarrow> d)
      in case enhancedDecision of
           AutoApply \<Rightarrow>
             (if (case map (with_filename stagedFiles) effectiveFixes of
                    [] \<Rightarrow> True | f # fs \<Rightarrow> af_type f = Some ''fallback'')
              then (1, w1)
              else autoApplyAndRecommit e (map (with_filename stagedFiles) effectiveFixes) stagedFiles w1)
         | KeepLocal \<Rightarrow> applyToNewFiles c (map (with_filename stagedFiles) effectiveFixes) stagedFiles w1
         | ReviewOnly \<Rightarrow> (1, w1)
         | SkipValidation \<Rightarrow> (0, w1)
         | CancelCommit \<Rightarrow> (1, w1))"

definition validateCommit ::
  "env \<Rightarrow> collaborators \<Rightarrow> string \<Rightarrow> string list \<Rightarrow> world \<Rightarrow> int \<times> world" where
  \<comment> \<open>\<open>rawDiff\<close> is the staged diff and \<open>stagedFiles\<close> the staged files, as git reports
      them; the result is the exit code and the world left behind\<close>
  "validateCommit e c rawDiff stagedFiles w =
     (if trim rawDiff = [] then (0, w)
      else if detectSkipDirective (custom_skip c) (resolve e) w stagedFiles then (0, w)
      else if trim (filterMeaningfulChanges rawDiff) = [] then (0, w)
      else if has_token c then
        (case review c (filterMeaningfulChanges rawDiff) of
           None \<Rightarrow> localCodeAnalysis c (filterMeaningfulChanges rawDiff) w
         | Some fb \<Rightarrow>
             if fb_ok fb then (0, w) else enhancedWorkflow e c fb stagedFiles w)
      else localCodeAnalysis c (filterMeaningfulChanges rawDiff) w)"

section \<open>Example inputs\<close>

definition diff_one_hunk :: string where
  "diff_one_hunk = join_lines [''diff --git a/f.js b/f.js'', ''@@ -10,2 +10,3 @@'', '' ctx'',
     ''-old'', ''+new'', ''+new2'']"

definition diff_no_hunk :: string where
  "diff_no_hunk = join_lines [''diff --git a/f.js b/f.js'', ''+x'']"

definition diff_lib :: string where
  \<comment> \<open>a new file \<open>lib/x.js\<close> of one line\<close>
  "diff_lib = join_lines [''diff --git a/lib/x.js b/lib/x.js'', ''@@ -0,0 +1 @@'', ''+x'']"

definition diff_map_header :: string where
  \<comment> \<open>an addition at line 5 of \<open>f.js\<close>, below the line \<open>const ys = xs.map(f)\<close>\<close>
  "diff_map_header = join_lines [''diff --git a/f.js b/f.js'', ''index 1111111..2222222 100644'',
     ''--- a/f.js'', ''+++ b/f.js'', ''@@ -4,0 +5 @@ const ys = xs.map(f)'', ''+x'']"

definition diff_http :: string where
  "diff_http = join_lines [''diff --git a/a.js b/a.js'', ''index 1111111..2222222 100644'',
     ''--- a/a.js'', ''+++ b/a.js'', ''@@ -1 +1 @@'', ''-fetch(\"https://x\")'',
     ''+fetch(\"http://x\")'']"

definition files_http :: "string \<rightharpoonup> string" where
  "files_http = [''a.js'' \<mapsto> ''fetch(\"http://x\")'']"

definition state_in_file :: hstate where
  \<comment> \<open>the mapper after the first line of a file block\<close>
  "state_in_file = hunk_step hunk_init ''diff --git a/f.js b/f.js''"

definition fix_http_staged :: Fix where
  "fix_http_staged = \<lparr>fx_line = 1, fx_original = ''fetch(\"http://x\")'',
     fx_improved = ''fetch(\"http://x\") // TODO: Fix: Insecure HTTP protocol'',
     fx_file = ''a.js'', fx_pattern = Some ''Insecure HTTP protocol'', fx_type = None\<rparr>"

definition fix_http_legacy :: Fix where
  "fix_http_legacy = \<lparr>fx_line = 7, fx_original = ''fetch(\"http://x\")'',
     fx_improved = ''fetch(\"http://x\") // TODO: Fix: Insecure HTTP protocol'',
     fx_file = ''a.js'', fx_pattern = None, fx_type = Some ''high-fix''\<rparr>"

definition env_default :: env where
  "env_default = \<lparr>resolve = (\<lambda>f. ''/repo/'' @ f), DEFAULT_ON_CANCEL = ''cancel'',
     nonInteractive = False, forcePrompt = False, apply_answer = (\<lambda>f. Answered True),
     confirmRecommit_answer = Answered True, confirmCommit_answer = Answered True,
     enhancedDecision_answer = Answered AutoApply, branchName = ''feature/SHOP-123-login'',
     commit_succeeds = True\<rparr>"

definition autofix_http :: AutoFix where
  "autofix_http = \<lparr>af_filename = ''a.js'', af_line = 1, af_original = ''fetch(\"http://x\")'',
     af_improved = ''fetch(\"http://x\") // TODO: Fix: Insecure HTTP protocol'',
     af_type = None, af_code = None\<rparr>"

definition feedback_http :: feedback where
  "feedback_http = \<lparr>fb_ok = False, fb_critical = False, fb_fixes = [autofix_http]\<rparr>"

definition collaborators_http :: collaborators where
  "collaborators_http = \<lparr>has_token = True, custom_skip = None, review = (\<lambda>d. Some feedback_http),
     localCodeAnalysis = (\<lambda>d w. (0, w)), applyToNewFiles = (\<lambda>fs st w. (0, w))\<rparr>"

definition world_http :: world where
  "world_http = \<lparr>files = [''/repo/a.js'' \<mapsto> ''fetch(\"http://x\")''], added = [], commits = [],
     prompted = []\<rparr>"

definition world_skip :: world where
  "world_skip = \<lparr>files = [''/repo/a.js'' \<mapsto> ''// ai-review: skip'' @ [newline] @ ''eval(x)''],
     added = [], commits = [], prompted = []\<rparr>"

definition diff_mode_only :: string where
  "diff_mode_only = join_lines [''diff --git a/package-lock.json b/package-lock.json'',
     ''old mode 100644'', ''new mode 100755'']"

definition content_skip :: string where
  "content_skip = ''// ai-review: skip'' @ [newline] @ ''eval(x)''"

definition content_fetch_skip :: string where
  \<comment> \<open>a file of two lines, the second a built-in skip directive\<close>
  "content_fetch_skip = join_lines [''fetch(\"http://x\")'', ''// ai-review: skip'']"

definition world_fetch_skip :: world where
  "world_fetch_skip = \<lparr>files = [''/repo/a.js'' \<mapsto> content_fetch_skip], added = [], commits = [],
     prompted = []\<rparr>"

definition diff_fetch_skip :: string where
  \<comment> \<open>the staged diff that adds that file\<close>
  "diff_fetch_skip = join_lines [''diff --git a/a.js b/a.js'', ''new file mode 100644'',
     ''index 0000000..2222222'', ''--- /dev/null'', ''+++ b/a.js'', ''@@ -0,0 +1,2 @@'',
     ''+fetch(\"http://x\")'', ''+// ai-review: skip'']"

definition collaborators_custom :: collaborators where
  \<comment> \<open>\<open>AI_SKIP_DIRECTIVE_REGEX\<close> is set to \<open>@no-review\<close>\<close>
  "collaborators_custom = collaborators_http\<lparr>custom_skip := Some (search_ci ''@no-review'')\<rparr>"

definition content_custom :: string where
  "content_custom = join_lines [''// @no-review'', ''eval(x)'']"

definition world_custom :: world where
  "world_custom = \<lparr>files = [''/repo/a.js'' \<mapsto> content_custom], added = [], commits = [],
     prompted = []\<rparr>"

definition env_cancel :: env where
  \<comment> \<open>the user chooses to cancel the commit at the workflow prompt\<close>
  "env_cancel = env_default\<lparr>enhancedDecision_answer := Answered CancelCommit\<rparr>"

definition diff_env :: string where
  \<comment> \<open>the staged diff of a change to the file \<open>.env\<close> alone\<close>
  "diff_env = join_lines [''diff --git a/.env b/.env'', ''index 1111111..2222222 100644'',
     ''--- a/.env'', ''+++ b/.env'', ''@@ -1 +1 @@'', ''-API_URL=\"https://x\"'',
     ''+API_URL=\"http://x\"'']"

definition world_env :: world where
  "world_env = \<lparr>files = [''/repo/.env'' \<mapsto> ''API_URL=\"http://x\"''], added = [], commits = [],
     prompted = []\<rparr>"

definition autofix_env :: AutoFix where
  \<comment> \<open>the fix that the feedback lists for that diff\<close>
  "autofix_env = \<lparr>af_filename = ''index.js'', af_line = 4, af_original = ''API_URL=\"http://x\"'',
     af_improved = ''API_URL=\"http://x\" // TODO: Fix: Insecure HTTP protocol'',
     af_type = None, af_code = None\<rparr>"

definition collaborators_env :: collaborators where
  "collaborators_env = collaborators_http\<lparr>review :=
     (\<lambda>d. Some \<lparr>fb_ok = False, fb_critical = False, fb_fixes = [autofix_env]\<rparr>)\<rparr>"

definition env_skip_timeout :: env where
  \<comment> \<open>policy \<open>skip\<close>; the user chooses to auto-apply, then the per-file confirmation times out\<close>
  "env_skip_timeout = env_default\<lparr>DEFAULT_ON_CANCEL := ''skip'',
     enhancedDecision_answer := Answered AutoApply, apply_answer := (\<lambda>f. Cancelled)\<rparr>"

definition env_timeout :: "string \<Rightarrow> env" where
  \<comment> \<open>every prompt times out, under the given policy\<close>
  "env_timeout policy = env_default\<lparr>DEFAULT_ON_CANCEL := policy,
     enhancedDecision_answer := Cancelled, apply_answer := (\<lambda>f. Cancelled),
     confirmRecommit_answer := Cancelled\<rparr>"

definition is_ticket :: "string \<Rightarrow> bool" where
  \<comment> \<open>a text of the shape \<open>[A-Z]+-\d+\<close>\<close>
  "is_ticket t \<longleftrightarrow>
     (\<exists>us ds. t = us @ CHR ''-'' # ds \<and> us \<noteq> [] \<and> list_all is_upper us
        \<and> ds \<noteq> [] \<and> list_all is_digit ds)"

definition env_decline :: env where
  \<comment> \<open>the user accepts the file and then answers no to the recommit\<close>
  "env_decline = env_default\<lparr>confirmRecommit_answer := Answered False\<rparr>"

definition env_commit_fails :: env where
  "env_commit_fails = env_default\<lparr>commit_succeeds := False\<rparr>"

definition env_main :: env where
  "env_main = env_default\<lparr>branchName := ''main''\<rparr>"

definition env_two_tickets :: env where
  \<comment> \<open>a branch name that holds two texts of the shape of a ticket\<close>
  "env_two_tickets = env_default\<lparr>branchName := ''fix/AB-12-after-CD-345''\<rparr>"

text \<open>The three kinds of usage that \<open>defaultValue\<close> looks for in the text of the line.\<close>

definition collection_usage :: "string \<Rightarrow> bool" where
  "collection_usage code \<longleftrightarrow> str_includes code ''.includes('' \<or> str_includes code ''.push(''
     \<or> str_includes code ''.pop('' \<or> str_includes code ''.length''"

definition arithmetic_usage :: "string \<Rightarrow> bool" where
  "arithmetic_usage code \<longleftrightarrow> str_includes code ''+ '' \<or> str_includes code ''- ''"

definition string_usage :: "string \<Rightarrow> bool" where
  "string_usage code \<longleftrightarrow> str_includes code ''toString()'' \<or> str_includes code ''charAt(''"

text \<open>
  When the pass over the file contents pushes an issue for a rule on a line, and when that
  issue also yields a fix (\<open>actionable\<close>).
\<close>

definition scanned :: "string \<Rightarrow> bool" where
  "scanned line \<longleftrightarrow> trim line \<noteq> [] \<and> \<not> startsWith (trim line) ''//'' \<and> \<not> startsWith (trim line) ''*''"

definition flags :: "string set \<Rightarrow> string \<Rightarrow> rule \<Rightarrow> bool" where
  "flags declaredVariables line pat \<longleftrightarrow>
     (if undeclared_special (message pat)
      then (case var_dot_search False line of
              None \<Rightarrow> False
            | Some varName \<Rightarrow> varName \<notin> declaredVariables \<and> rx_test pat line)
      else rx_test pat line)"

definition actionable ::
  "(string \<rightharpoonup> int set) \<Rightarrow> string \<Rightarrow> string set \<Rightarrow> int \<Rightarrow> string \<Rightarrow> rule \<Rightarrow> bool" where
  "actionable sc filePath declaredVariables n line pat \<longleftrightarrow>
     scanned line \<and> flags declaredVariables line pat \<and> staged_has sc filePath n \<and> fixable pat"

definition diff_declared :: string where
  "diff_declared = join_lines [''diff --git a/app.js b/app.js'', ''index 0000000..1111111'',
     ''--- /dev/null'', ''+++ b/app.js'', ''@@ -0,0 +1,2 @@'', ''+const testVariable = 1'',
     ''+items.push(testVariable)'']"

definition content_declared :: string where
  "content_declared = join_lines [''const testVariable = 1'', ''items.push(testVariable)'']"

definition files_declared :: "string \<rightharpoonup> string" where
  "files_declared = [''app.js'' \<mapsto> content_declared]"

definition fix_unchanged :: Fix where
  "fix_unchanged = \<lparr>fx_line = 2, fx_original = ''items.push(testVariable)'',
     fx_improved = ''items.push(testVariable)'', fx_file = ''app.js'',
     fx_pattern = Some (message test_variable_rule), fx_type = None\<rparr>"

definition content_http :: string where
  "content_http = ''fetch(\"http://x\")''"




definition paths_apart :: "env \<Rightarrow> string set \<Rightarrow> bool" where
  \<comment> \<open>different file names are different files, and no file stands where the backup of
      another is written\<close>
  "paths_apart e names \<longleftrightarrow>
     inj_on (resolve e) names
     \<and> (\<forall>f\<in>names. \<forall>g\<in>names. resolve e f @ ''.ai-backup'' \<noteq> resolve e g)"




definition backed_up :: "env \<Rightarrow> world \<Rightarrow> world \<Rightarrow> string \<times> string \<Rightarrow> bool" where
  \<comment> \<open>an entry of \<open>appliedFiles\<close> whose backup, in the world \<open>w\<close>, holds the text of what the
      file held in the world \<open>wb\<close> the session started from\<close>
  "backed_up e wb w x \<longleftrightarrow>
     snd x = resolve e (fst x) @ ''.ai-backup''
     \<and> files w (snd x) = map_option utf8_text (files wb (resolve e (fst x)))
     \<and> files wb (resolve e (fst x)) \<noteq> None"



section \<open>The hunk mapper\<close>

lemma addition_not_header:
  "is_addition l \<Longrightarrow> \<not> startsWith l ''diff --git'' \<and> \<not> startsWith l ''@@'' \<and> \<not> startsWith l ''-''"
  by (cases l) (auto simp: is_addition_def)

lemma staged_has_add:
  "staged_has (add_staged m f n) g k \<longleftrightarrow> staged_has m g k \<or> (g = f \<and> k = n)"
  by (auto simp: staged_has_def add_staged_def split: option.splits)

lemma hunk_step_recorded:
  "staged_has (staged (hunk_step st l)) f n \<longleftrightarrow>
     staged_has (staged st) f n \<or> (is_addition l \<and> cur_file st = f \<and> f \<noteq> [] \<and> n = cur_line st + 1)"
proof (cases "is_addition l")
  case True
  then show ?thesis
    using addition_not_header[OF True]
    by (auto simp: hunk_step_def staged_has_add is_addition_def)
next
  case False
  then show ?thesis
    by (auto simp: hunk_step_def is_addition_def split: option.splits)
qed

lemma hunk_run_snoc: "hunk_run (xs @ [x]) = hunk_step (hunk_run xs) x"
  by (simp add: hunk_run_def)

lemma hunk_run_recorded:
  "staged_has (staged (hunk_run ls)) f n \<longleftrightarrow>
     (\<exists>i<length ls. is_addition (ls ! i) \<and> cur_file (state_before ls i) = f \<and> f \<noteq> []
        \<and> n = cur_line (state_before ls i) + 1)"
proof (induction ls rule: rev_induct)
  case Nil
  then show ?case by (simp add: hunk_run_def hunk_init_def staged_has_def)
next
  case (snoc x xs)
  have old: "\<And>i. i < length xs \<Longrightarrow>
      state_before (xs @ [x]) i = state_before xs i \<and> (xs @ [x]) ! i = xs ! i"
    by (simp add: state_before_def nth_append)
  have new: "state_before (xs @ [x]) (length xs) = hunk_run xs"
    by (simp add: state_before_def)
  show ?case
    unfolding hunk_run_snoc hunk_step_recorded snoc.IH
    using old new by (auto simp: less_Suc_eq)
qed

lemma digits_takeWhile:
  "list_all is_digit a \<Longrightarrow> \<not> is_digit x \<Longrightarrow>
     takeWhile is_digit (a @ x # r) = a \<and> dropWhile is_digit (a @ x # r) = x # r"
  by (induction a) auto

lemma hunk_at_header:
  assumes "a \<noteq> []" "list_all is_digit a" "b \<noteq> []" "list_all is_digit b"
    "c \<noteq> []" "list_all is_digit c" "d \<noteq> []" "list_all is_digit d"
  shows "hunk_at (''@@ -'' @ a @ '','' @ b @ '' +'' @ c @ '','' @ d @ '' @@'' @ r) = Some c"
proof -
  have nd: "\<not> is_digit (CHR '','')" "\<not> is_digit (CHR '' '')"
    by (simp_all add: is_digit_def)
  have 0: "spaces1 ('' -'' @ a @ '','' @ b @ '' +'' @ c @ '','' @ d @ '' @@'' @ r)
      = Some (''-'' @ a @ '','' @ b @ '' +'' @ c @ '','' @ d @ '' @@'' @ r)"
    by (simp add: spaces1_def is_space_def)
  have 1: "digits1 (a @ '','' @ b @ '' +'' @ c @ '','' @ d @ '' @@'' @ r)
      = Some (a, '','' @ b @ '' +'' @ c @ '','' @ d @ '' @@'' @ r)"
    using digits_takeWhile[OF assms(2) nd(1)] assms(1) by (simp add: digits1_def)
  have 2: "opt_count ('','' @ b @ '' +'' @ c @ '','' @ d @ '' @@'' @ r)
      = '' +'' @ c @ '','' @ d @ '' @@'' @ r"
    using digits_takeWhile[OF assms(4) nd(2)] assms(3) by (simp add: opt_count_def)
  have 3: "digits1 (c @ '','' @ d @ '' @@'' @ r) = Some (c, '','' @ d @ '' @@'' @ r)"
    using digits_takeWhile[OF assms(6) nd(1)] assms(5) by (simp add: digits1_def)
  have 4: "opt_count ('','' @ d @ '' @@'' @ r) = '' @@'' @ r"
    using digits_takeWhile[OF assms(8) nd(2)] assms(7) by (simp add: opt_count_def)
  have 5: "spaces1 ('' +'' @ c @ '','' @ d @ '' @@'' @ r) = Some (''+'' @ c @ '','' @ d @ '' @@'' @ r)"
    by (simp add: spaces1_def is_space_def)
  have 6: "spaces1 ('' @@'' @ r) = Some (''@@'' @ r)"
    by (simp add: spaces1_def is_space_def)
  show ?thesis
    unfolding hunk_at_def
    using 0 1 2 3 4 5 6 by (simp add: lit_def)
qed

lemma hunk_step_header:
  assumes "a \<noteq> []" "list_all is_digit a" "b \<noteq> []" "list_all is_digit b"
    "c \<noteq> []" "list_all is_digit c" "d \<noteq> []" "list_all is_digit d"
  shows "hunk_step st (''@@ -'' @ a @ '','' @ b @ '' +'' @ c @ '','' @ d @ '' @@'' @ r)
     = st\<lparr>cur_line := parseInt c - 1\<rparr>"
  using hunk_at_header[OF assms, of r] by (simp add: hunk_step_def)

lemma hunk_step_addition:
  "is_addition l \<Longrightarrow> cur_line (hunk_step st l) = cur_line st + 1 \<and> cur_file (hunk_step st l) = cur_file st"
  using addition_not_header[of l] by (auto simp: hunk_step_def is_addition_def)

lemma hunk_step_context:
  "\<not> startsWith l ''diff --git'' \<Longrightarrow> \<not> startsWith l ''@@'' \<Longrightarrow> \<not> startsWith l ''+''
     \<Longrightarrow> \<not> startsWith l ''-'' \<Longrightarrow> hunk_step st l = st\<lparr>cur_line := cur_line st + 1\<rparr>"
  by (cases l) (auto simp: hunk_step_def)

lemma hunk_step_removal: "startsWith l ''-'' \<Longrightarrow> hunk_step st l = st"
  by (cases l) (auto simp: hunk_step_def)

lemma match_b_path_skip:
  "\<not> str_includes p ''b/'' \<Longrightarrow> match_b_path (p @ CHR '' '' # r) = match_b_path r"
proof (induction p)
  case Nil
  show ?case by simp
next
  case (Cons c p)
  then have "\<not> startsWith (c # p) ''b/''" and rest: "\<not> str_includes p ''b/''"
    by simp_all
  then have ns: "\<not> startsWith (c # p @ CHR '' '' # r) ''b/''"
    by (cases p) auto
  have "match_b_path ((c # p) @ CHR '' '' # r) = match_b_path (p @ CHR '' '' # r)"
    using ns by (simp del: startsWith.simps)
  with Cons.IH[OF rest] show ?case
    by simp
qed

lemma match_b_path_header:
  assumes "\<not> str_includes p ''b/''" and "\<not> list_ex is_line_terminator q"
  shows "match_b_path (''diff --git a/'' @ p @ '' b/'' @ q) = Some q"
proof -
  have "match_b_path (''diff --git a/'' @ p @ '' b/'' @ q) = match_b_path (p @ CHR '' '' # ''b/'' @ q)"
    by simp
  also have "\<dots> = match_b_path (''b/'' @ q)"
    by (rule match_b_path_skip[OF assms(1)])
  also have "\<dots> = Some q"
    using assms(2) by (simp add: list_ex_iff)
  finally show ?thesis .
qed

lemma hunk_step_file_header:
  assumes "\<not> str_includes p ''b/''" and "\<not> list_ex is_line_terminator q"
  shows "hunk_step st (''diff --git a/'' @ p @ '' b/'' @ q) = st\<lparr>cur_file := trim q\<rparr>"
proof -
  have "startsWith (''diff --git a/'' @ p @ '' b/'' @ q) ''diff --git''"
    by simp
  then show ?thesis
    unfolding hunk_step_def using match_b_path_header[OF assms] by simp
qed

lemma hunk_step_marker: "startsWith l ''+++'' \<Longrightarrow> hunk_step st l = st"
  by (cases l) (auto simp: hunk_step_def)

lemma hunk_step_keeps_file:
  "\<not> startsWith l ''diff --git'' \<Longrightarrow> cur_file (hunk_step st l) = cur_file st"
  by (auto simp: hunk_step_def split: option.splits)

lemma state_before_step:
  "i < length ls \<Longrightarrow> state_before ls (Suc i) = hunk_step (state_before ls i) (ls ! i)"
  by (simp add: state_before_def hunk_run_def take_Suc_conv_app_nth)

text \<open>
  Claim C2, as the program has it.  The staged-change map holds, for a file, exactly the values
  the running counter takes at the addition lines met while that file is the current one.
  A header \<open>@@ -a,b +c,d @@\<close> sets the counter so that the next addition line gets the number
  \<open>c\<close>; an addition line (it starts with \<open>+\<close>, not with \<open>+++\<close>) advances the counter and is
  recorded when a current file is set; a line that starts with none of \<open>diff --git\<close>, \<open>@@\<close>,
  \<open>+\<close>, \<open>-\<close> advances the counter and records nothing; a removal line changes nothing.
  Nothing is said about hunks: an addition line is recorded wherever it stands.  The mapper
  starts with no current file and the counter at 0, and takes the lines one by one.  The
  line \<open>diff --git a/p b/q\<close> that opens the block of a file makes \<open>q\<close>, trimmed, the current
  file, when \<open>p\<close> does not hold \<open>b/\<close>; no other line changes the current file, and a line
  that starts with \<open>+++\<close> changes nothing.
\<close>

theorem hunk_mapper_numbering:
  "(staged_has (stagedChanges diff) f n \<longleftrightarrow>
      (\<exists>i<length (split_lines diff). is_addition (split_lines diff ! i)
          \<and> cur_file (state_before (split_lines diff) i) = f \<and> f \<noteq> []
          \<and> n = cur_line (state_before (split_lines diff) i) + 1))
   \<and> cur_file (state_before ls 0) = [] \<and> cur_line (state_before ls 0) = 0
   \<and> (k < length ls \<longrightarrow> state_before ls (Suc k) = hunk_step (state_before ls k) (ls ! k))
   \<and> (\<not> str_includes p ''b/'' \<and> \<not> list_ex is_line_terminator q
      \<longrightarrow> hunk_step st (''diff --git a/'' @ p @ '' b/'' @ q) = st\<lparr>cur_file := trim q\<rparr>)
   \<and> (\<not> startsWith l5 ''diff --git'' \<longrightarrow> cur_file (hunk_step st l5) = cur_file st)
   \<and> (startsWith l6 ''+++'' \<longrightarrow> hunk_step st l6 = st)
   \<and> (a \<noteq> [] \<and> list_all is_digit a \<and> b \<noteq> [] \<and> list_all is_digit b
        \<and> c \<noteq> [] \<and> list_all is_digit c \<and> d \<noteq> [] \<and> list_all is_digit d \<and> is_addition l1
      \<longrightarrow> cur_line (hunk_step
             (hunk_step st (''@@ -'' @ a @ '','' @ b @ '' +'' @ c @ '','' @ d @ '' @@'' @ r)) l1)
            = parseInt c)
   \<and> (is_addition l2 \<longrightarrow>
        cur_line (hunk_step st l2) = cur_line st + 1
        \<and> (cur_file st \<noteq> [] \<longrightarrow>
             staged_has (staged (hunk_step st l2)) (cur_file st) (cur_line st + 1)))
   \<and> (\<not> startsWith l3 ''diff --git'' \<and> \<not> startsWith l3 ''@@'' \<and> \<not> startsWith l3 ''+''
        \<and> \<not> startsWith l3 ''-''
      \<longrightarrow> hunk_step st l3 = st\<lparr>cur_line := cur_line st + 1\<rparr>)
   \<and> (startsWith l4 ''-'' \<longrightarrow> hunk_step st l4 = st)"
proof (intro conjI impI)
  show "staged_has (stagedChanges diff) f n \<longleftrightarrow>
      (\<exists>i<length (split_lines diff). is_addition (split_lines diff ! i)
          \<and> cur_file (state_before (split_lines diff) i) = f \<and> f \<noteq> []
          \<and> n = cur_line (state_before (split_lines diff) i) + 1)"
    unfolding stagedChanges_def by (rule hunk_run_recorded)
next
  show "cur_file (state_before ls 0) = []" "cur_line (state_before ls 0) = 0"
    by (simp_all add: state_before_def hunk_run_def hunk_init_def)
next
  assume "k < length ls"
  then show "state_before ls (Suc k) = hunk_step (state_before ls k) (ls ! k)"
    by (rule state_before_step)
next
  assume "\<not> str_includes p ''b/'' \<and> \<not> list_ex is_line_terminator q"
  then show "hunk_step st (''diff --git a/'' @ p @ '' b/'' @ q) = st\<lparr>cur_file := trim q\<rparr>"
    by (intro hunk_step_file_header) simp_all
next
  assume "\<not> startsWith l5 ''diff --git''"
  then show "cur_file (hunk_step st l5) = cur_file st"
    by (rule hunk_step_keeps_file)
next
  assume "startsWith l6 ''+++''"
  then show "hunk_step st l6 = st"
    by (rule hunk_step_marker)
next
  assume h: "a \<noteq> [] \<and> list_all is_digit a \<and> b \<noteq> [] \<and> list_all is_digit b
        \<and> c \<noteq> [] \<and> list_all is_digit c \<and> d \<noteq> [] \<and> list_all is_digit d \<and> is_addition l1"
  then have "hunk_step st (''@@ -'' @ a @ '','' @ b @ '' +'' @ c @ '','' @ d @ '' @@'' @ r)
     = st\<lparr>cur_line := parseInt c - 1\<rparr>"
    by (intro hunk_step_header) simp_all
  with h show "cur_line (hunk_step
       (hunk_step st (''@@ -'' @ a @ '','' @ b @ '' +'' @ c @ '','' @ d @ '' @@'' @ r)) l1)
      = parseInt c"
    by (simp add: hunk_step_addition)
next
  assume "is_addition l2"
  then show "cur_line (hunk_step st l2) = cur_line st + 1"
    by (simp add: hunk_step_addition)
next
  assume "is_addition l2" "cur_file st \<noteq> []"
  then show "staged_has (staged (hunk_step st l2)) (cur_file st) (cur_line st + 1)"
    by (simp add: hunk_step_recorded)
next
  assume "\<not> startsWith l3 ''diff --git'' \<and> \<not> startsWith l3 ''@@'' \<and> \<not> startsWith l3 ''+''
        \<and> \<not> startsWith l3 ''-''"
  then show "hunk_step st l3 = st\<lparr>cur_line := cur_line st + 1\<rparr>"
    by (simp add: hunk_step_context)
next
  assume "startsWith l4 ''-''"
  then show "hunk_step st l4 = st"
    by (rule hunk_step_removal)
qed

theorem hunk_mapper_numbering_witness:
  "staged_has (stagedChanges diff_one_hunk) ''f.js'' 11
   \<and> 4 < length (split_lines diff_one_hunk) \<and> is_addition (split_lines diff_one_hunk ! 4)
   \<and> cur_file (state_before (split_lines diff_one_hunk) 4) = ''f.js''
   \<and> cur_line (state_before (split_lines diff_one_hunk) 4) + 1 = 11
   \<and> state_before (split_lines diff_one_hunk) (Suc 4)
       = hunk_step (state_before (split_lines diff_one_hunk) 4) (split_lines diff_one_hunk ! 4)
   \<and> \<not> str_includes ''src/f.js'' ''b/'' \<and> \<not> list_ex is_line_terminator ''src/g.js''
   \<and> hunk_step state_in_file (''diff --git a/'' @ ''src/f.js'' @ '' b/'' @ ''src/g.js'')
       = state_in_file\<lparr>cur_file := trim ''src/g.js''\<rparr>
   \<and> startsWith ''+++ b/f.js'' ''+++'' \<and> hunk_step state_in_file ''+++ b/f.js'' = state_in_file
   \<and> \<not> startsWith ''@@ -10,2 +10,3 @@'' ''diff --git''
   \<and> cur_file (hunk_step state_in_file ''@@ -10,2 +10,3 @@'') = cur_file state_in_file
   \<and> list_all is_digit ''10'' \<and> list_all is_digit ''2'' \<and> list_all is_digit ''3''
   \<and> is_addition ''+new''
   \<and> cur_line (hunk_step (hunk_step state_in_file ''@@ -10,2 +10,3 @@'') ''+new'') = 10
   \<and> cur_line (hunk_step state_in_file ''+new'') = 1
   \<and> cur_file state_in_file = ''f.js''
   \<and> staged_has (staged (hunk_step state_in_file ''+new'')) ''f.js'' 1
   \<and> \<not> startsWith '' ctx'' ''diff --git'' \<and> \<not> startsWith '' ctx'' ''@@''
   \<and> \<not> startsWith '' ctx'' ''+'' \<and> \<not> startsWith '' ctx'' ''-''
   \<and> hunk_step state_in_file '' ctx'' = state_in_file\<lparr>cur_line := 1\<rparr>
   \<and> startsWith ''-old'' ''-'' \<and> hunk_step state_in_file ''-old'' = state_in_file"
proof -
  have e: "4 < length (split_lines diff_one_hunk) \<and> is_addition (split_lines diff_one_hunk ! 4)
     \<and> cur_file (state_before (split_lines diff_one_hunk) 4) = ''f.js''
     \<and> cur_line (state_before (split_lines diff_one_hunk) 4) + 1 = 11"
    by code_simp
  have g: "list_all is_digit ''10'' \<and> list_all is_digit ''2'' \<and> list_all is_digit ''3''
     \<and> is_addition ''+new'' \<and> parseInt ''10'' = 10
     \<and> cur_line state_in_file = 0 \<and> cur_file state_in_file = ''f.js''"
    by code_simp
  have k: "\<not> startsWith '' ctx'' ''diff --git'' \<and> \<not> startsWith '' ctx'' ''@@''
     \<and> \<not> startsWith '' ctx'' ''+'' \<and> \<not> startsWith '' ctx'' ''-'' \<and> startsWith ''-old'' ''-''"
    by simp
  have h: "\<not> str_includes ''src/f.js'' ''b/'' \<and> \<not> list_ex is_line_terminator ''src/g.js''
     \<and> \<not> startsWith ''@@ -10,2 +10,3 @@'' ''diff --git'' \<and> startsWith ''+++ b/f.js'' ''+++''"
    by code_simp
  show ?thesis
    using e g k h
      hunk_mapper_numbering[where diff = diff_one_hunk and f = "''f.js''" and n = 11
        and ls = "split_lines diff_one_hunk" and k = 4 and p = "''src/f.js''"
        and q = "''src/g.js''" and ?l5.0 = "''@@ -10,2 +10,3 @@''" and ?l6.0 = "''+++ b/f.js''"
        and a = "''10''" and b = "''2''" and c = "''10''" and d = "''3''"
        and ?l1.0 = "''+new''" and st = state_in_file and r = "[]" and ?l2.0 = "''+new''"
        and ?l3.0 = "'' ctx''" and ?l4.0 = "''-old''"]
    by auto
qed

text \<open>
  Claim C2 says that no recorded line number belongs to a line outside any hunk.  In the
  first text below no line is a hunk header, and the addition line is recorded all the same,
  with the number 1.  The second text is what validateCommit hands to getCopilotReview for a
  diff that adds line 5 of \<open>f.js\<close>: filterMeaningfulChanges drops the hunk header, which the
  entry \<open>*.map\<close> of the excluded files matches, and the addition is recorded with the number 2,
  the count of the lines before it that the counter takes for context.  The claim also says
  that the map is keyed by the files: in the third text the file is \<open>lib/x.js\<close>, and its line
  is recorded under the text after the first \<open>b/\<close> of the header, which is the one of \<open>lib/\<close>.
\<close>

theorem hunk_mapper_outside_hunk_counterexample:
  "split_lines diff_no_hunk = [''diff --git a/f.js b/f.js'', ''+x'']
   \<and> \<not> startsWith ''diff --git a/f.js b/f.js'' ''@@'' \<and> \<not> startsWith ''+x'' ''@@''
   \<and> staged_has (stagedChanges diff_no_hunk) ''f.js'' 1
   \<and> split_lines (filterMeaningfulChanges diff_map_header)
       = [''diff --git a/f.js b/f.js'', ''index 1111111..2222222 100644'', ''--- a/f.js'',
          ''+++ b/f.js'', ''+x'']
   \<and> staged_has (stagedChanges (filterMeaningfulChanges diff_map_header)) ''f.js'' 2
   \<and> \<not> staged_has (stagedChanges (filterMeaningfulChanges diff_map_header)) ''f.js'' 5
   \<and> staged_has (stagedChanges diff_map_header) ''f.js'' 5
   \<and> staged_has (stagedChanges diff_lib) ''x.js b/lib/x.js'' 1
   \<and> stagedChanges diff_lib ''lib/x.js'' = None"
  by code_simp

section \<open>The fixes that getCopilotReview generates\<close>

lemma push_fix_mem:
  "(k, xs) \<in> set (push_fix m y) \<Longrightarrow> x \<in> set xs \<Longrightarrow>
     (x = y \<and> fx_file y = k) \<or> (\<exists>ys. (k, ys) \<in> set m \<and> x \<in> set ys)"
  by (induction m y rule: push_fix.induct) (auto split: if_splits)

lemma foldl_push_fix_mem:
  "(k, xs) \<in> set (foldl push_fix m fs) \<Longrightarrow> x \<in> set xs \<Longrightarrow>
     (x \<in> set fs \<and> fx_file x = k) \<or> (\<exists>ys. (k, ys) \<in> set m \<and> x \<in> set ys)"
proof (induction fs arbitrary: m)
  case Nil
  then show ?case by auto
next
  case (Cons y fs)
  from Cons.IH[of "push_fix m y"] Cons.prems
  have "(x \<in> set fs \<and> fx_file x = k) \<or> (\<exists>ys. (k, ys) \<in> set (push_fix m y) \<and> x \<in> set ys)"
    by simp
  then show ?case
    using push_fix_mem[of k _ m y x] by auto
qed

lemma scan_rule_mem:
  "x \<in> set (scan_rule sc filePath dv n line pat) \<Longrightarrow>
     fixable pat \<and> staged_has sc filePath n \<and> x = staged_fix filePath dv n line pat"
  by (auto simp: scan_rule_def split: if_splits option.splits)

lemma staged_pass_mem:
  assumes "x \<in> set (staged_pass patterns readf diff)"
  shows "\<exists>pat\<in>set patterns. fixable pat \<and> fx_type x = None \<and> fx_pattern x = Some (message pat)
           \<and> staged_has (stagedChanges diff) (fx_file x) (fx_line x)"
proof -
  from assms obtain filePath fileContent lineIndex line pat where
    "pat \<in> set patterns"
    "x \<in> set (scan_rule (stagedChanges diff) filePath (declared_in_file fileContent)
                (int lineIndex + 1) line pat)"
    by (auto simp: staged_pass_def scan_file_def scan_line_def split: option.splits if_splits)
  then show ?thesis
    using scan_rule_mem by (fastforce simp: staged_fix_def)
qed

lemma legacy_scan_mem:
  "x \<in> set (legacy_scan patterns fv cur idx ls) \<Longrightarrow>
     \<exists>i<length ls. \<exists>pat\<in>set patterns. fixable pat \<and> is_addition (ls ! i)
        \<and> rx_test pat (drop 1 (ls ! i))
        \<and> fx_line x = int (idx + i) + 1 \<and> fx_pattern x = None
        \<and> fx_type x = Some (severity_name (severity pat) @ ''-fix'')"
proof (induction ls arbitrary: cur idx)
  case Nil
  then show ?case by simp
next
  case (Cons line ls)
  from Cons.prems consider
    (here) "is_addition line"
      "\<exists>pat\<in>set patterns. x \<in> set (legacy_rule fv (track_file cur line) idx (drop 1 line) pat)"
    | (later) "x \<in> set (legacy_scan patterns fv (track_file cur line) (Suc idx) ls)"
    by (auto split: if_splits)
  then show ?case
  proof cases
    case here
    then obtain pat where "pat \<in> set patterns" "fixable pat" "rx_test pat (drop 1 line)"
      "x = legacy_fix (if track_file cur line = [] then ''index.js'' else track_file cur line)
             (fv (if track_file cur line = [] then ''index.js'' else track_file cur line))
             idx (drop 1 line) pat"
      by (auto simp: legacy_rule_def split: if_splits)
    with here(1) show ?thesis
      by (intro exI[of _ 0]) (auto simp: legacy_fix_def)
  next
    case later
    from Cons.IH[OF later] obtain i pat where
      "i < length ls" "pat \<in> set patterns" "fixable pat" "is_addition (ls ! i)"
      "rx_test pat (drop 1 (ls ! i))"
      "fx_line x = int (Suc idx + i) + 1" "fx_pattern x = None"
      "fx_type x = Some (severity_name (severity pat) @ ''-fix'')"
      by blast
    then show ?thesis
      by (intro exI[of _ "Suc i"]) auto
  qed
qed

text \<open>
  Claim C1, as the program has it.  Every fix in the \<open>fileChanges\<close> map of getCopilotReview is
  filed under its own file and comes from a rule of severity critical or high.  A fix of the
  pass over the file contents (it carries the rule's message as \<open>pattern\<close>) has a line number
  in the staged-change map entry of its file.  A fix of the pass over the diff lines (it carries
  \<open>type\<close>) comes from an addition line of the diff that the rule matches, and its line
  number is the position of that line in the diff text, counted from 1.
\<close>

theorem fixes_of_getCopilotReview:
  assumes "(k, xs) \<in> set (getCopilotReview patterns readf diff)" and "x \<in> set xs"
  shows "fx_file x = k \<and>
     (\<exists>pat\<in>set patterns. fixable pat \<and>
        (fx_type x = None \<and> fx_pattern x = Some (message pat)
           \<and> staged_has (stagedChanges diff) (fx_file x) (fx_line x)
         \<or> fx_pattern x = None \<and> fx_type x = Some (severity_name (severity pat) @ ''-fix'')
           \<and> (\<exists>i<length (split_lines diff). fx_line x = int i + 1
                 \<and> is_addition (split_lines diff ! i)
                 \<and> rx_test pat (drop 1 (split_lines diff ! i)))))"
proof -
  from foldl_push_fix_mem[OF assms[unfolded getCopilotReview_def]]
  have mem: "x \<in> set (staged_pass patterns readf diff) \<or> x \<in> set (legacy_pass patterns readf diff)"
    and fk: "fx_file x = k"
    by auto
  from mem show ?thesis
  proof
    assume "x \<in> set (staged_pass patterns readf diff)"
    from staged_pass_mem[OF this] fk show ?thesis by blast
  next
    assume "x \<in> set (legacy_pass patterns readf diff)"
    from legacy_scan_mem[OF this[unfolded legacy_pass_def]] fk show ?thesis
      by (auto; blast)
  qed
qed

theorem fixes_of_getCopilotReview_witness:
  "(''a.js'', [fix_http_staged, fix_http_legacy])
      \<in> set (getCopilotReview [http_rule] files_http diff_http)
   \<and> fix_http_staged \<in> set [fix_http_staged, fix_http_legacy]
   \<and> fx_file fix_http_staged = ''a.js''
   \<and> fixable http_rule
   \<and> staged_has (stagedChanges diff_http) ''a.js'' 1"
proof -
  have m: "(''a.js'', [fix_http_staged, fix_http_legacy])
      \<in> set (getCopilotReview [http_rule] files_http diff_http)"
    by code_simp
  have x: "fix_http_staged \<in> set [fix_http_staged, fix_http_legacy]"
    by simp
  have t: "fx_type fix_http_staged = None \<and> fx_line fix_http_staged = 1"
    by code_simp
  show ?thesis
    using m x t fixes_of_getCopilotReview[OF m x] by auto
qed

text \<open>
  Claim C1 says that the line number of every fix is in the staged-change map entry of its
  file.  The diff below changes line 1 of \<open>a.js\<close>; the pass over the diff lines adds a fix whose
  line number is 7, the position of the addition line in the diff, and 7 is not in the entry.
\<close>

theorem fix_outside_staged_lines_counterexample:
  "getCopilotReview [http_rule] files_http diff_http
     = [(''a.js'', [fix_http_staged, fix_http_legacy])]
   \<and> fx_line fix_http_legacy = 7
   \<and> \<not> staged_has (stagedChanges diff_http) ''a.js'' 7"
  by code_simp

section \<open>The early exits of validateCommit\<close>

lemma detectSkipDirective_file:
  assumes "file \<in> set stagedFiles" and "files w (rp file) = Some content"
    and "case custom of None \<Rightarrow> default_skip_test content | Some t \<Rightarrow> t content"
  shows "detectSkipDirective custom rp w stagedFiles"
  unfolding detectSkipDirective_def list_ex_iff
  using assms by (intro bexI[of _ "file"]) simp_all

lemma startsWith_ci_append: "startsWith_ci (p @ r) p"
  by (induction p) auto

lemma dropWhile_spaces:
  "list_all is_space s \<Longrightarrow> x \<noteq> [] \<Longrightarrow> \<not> is_space (hd x) \<Longrightarrow> dropWhile is_space (s @ x) = x"
  by (cases x) (simp_all add: dropWhile_append3 list_all_iff)

lemma directive_at_here:
  assumes "l \<noteq> []" and "r \<noteq> []" and "\<not> is_space (hd r)"
    and "list_all is_space s2" and "list_all is_space s3"
  shows "directive_at (l @ s2 @ '':'' @ s3 @ r @ post) (l, r)"
proof -
  have 1: "startsWith_ci (l @ s2 @ '':'' @ s3 @ r @ post) l"
    by (rule startsWith_ci_append)
  have 2: "dropWhile is_space (s2 @ CHR '':'' # s3 @ r @ post) = CHR '':'' # s3 @ r @ post"
    using assms(4) by (simp add: dropWhile_append3 list_all_iff is_space_def)
  have 3: "dropWhile is_space (s3 @ r @ post) = r @ post"
    using assms(2,3,5) by (intro dropWhile_spaces) simp_all
  have 4: "startsWith_ci (r @ post) r"
    by (rule startsWith_ci_append)
  show ?thesis
    unfolding directive_at_def using 1 4 by (simp add: 2 3)
qed

lemma default_skip_test_append: "default_skip_test s \<Longrightarrow> default_skip_test (pre @ s)"
  by (induction pre) auto

text \<open>
  The built-in pattern: a comment opener \<open>//\<close>, then one of the eight directives, written
  as its two words with a colon between them, white space allowed before the first word and
  around the colon.
\<close>

lemma builtin_directive_matches:
  assumes "(l, r) \<in> set skip_directives"
    and "list_all is_space s1" and "list_all is_space s2" and "list_all is_space s3"
  shows "default_skip_test (pre @ ''//'' @ s1 @ l @ s2 @ '':'' @ s3 @ r @ post)"
proof -
  have shape: "l \<noteq> [] \<and> \<not> is_space (hd l) \<and> r \<noteq> [] \<and> \<not> is_space (hd r)"
    using assms(1) by (auto simp: skip_directives_def is_space_def)
  have d: "directive_at (l @ s2 @ '':'' @ s3 @ r @ post) (l, r)"
    using shape assms(3,4) by (intro directive_at_here) simp_all
  have "dropWhile is_space (s1 @ l @ s2 @ '':'' @ s3 @ r @ post) = l @ s2 @ '':'' @ s3 @ r @ post"
    using shape assms(2) by (intro dropWhile_spaces) simp_all
  with d assms(1) have "list_ex (directive_at (dropWhile is_space (s1 @ l @ s2 @ '':'' @ s3 @ r @ post)))
      skip_directives"
    unfolding list_ex_iff by (intro bexI[of _ "(l, r)"]) simp_all
  then have "default_skip_test (''//'' @ s1 @ l @ s2 @ '':'' @ s3 @ r @ post)"
    by simp
  then show ?thesis
    by (rule default_skip_test_append)
qed

text \<open>
  Claim C9, as the program has it.  The skip pattern in force is the custom one when
  \<open>AI_SKIP_DIRECTIVE_REGEX\<close> is set, and the built-in one otherwise.  When a staged file
  exists and its content matches the pattern in force, validateCommit exits with code 0 and
  leaves the world as it found it: no file is written, nothing is staged or committed, no
  prompt is shown, and neither the review nor the local analysis has any part in the result.
  The built-in pattern matches every content that holds \<open>//\<close> followed by one of its
  directives.
\<close>

theorem skip_directive_exits_zero:
  assumes "file \<in> set stagedFiles" and "files w (resolve e file) = Some content"
    and "case custom_skip c of None \<Rightarrow> default_skip_test content | Some t \<Rightarrow> t content"
  shows "validateCommit e c rawDiff stagedFiles w = (0, w)
     \<and> ((l, r) \<in> set skip_directives \<and> list_all is_space s1 \<and> list_all is_space s2
          \<and> list_all is_space s3
        \<longrightarrow> default_skip_test (pre @ ''//'' @ s1 @ l @ s2 @ '':'' @ s3 @ r @ post))"
proof (intro conjI impI)
  show "validateCommit e c rawDiff stagedFiles w = (0, w)"
    using detectSkipDirective_file[of "file" stagedFiles w "resolve e" content "custom_skip c"] assms
    by (simp add: validateCommit_def)
next
  assume "(l, r) \<in> set skip_directives \<and> list_all is_space s1 \<and> list_all is_space s2
          \<and> list_all is_space s3"
  then show "default_skip_test (pre @ ''//'' @ s1 @ l @ s2 @ '':'' @ s3 @ r @ post)"
    by (intro builtin_directive_matches) simp_all
qed

theorem skip_directive_exits_zero_witness:
  "''a.js'' \<in> set [''a.js'']
   \<and> files world_skip (resolve env_default ''a.js'') = Some content_skip
   \<and> custom_skip collaborators_http = None
   \<and> default_skip_test content_skip
   \<and> validateCommit env_default collaborators_http diff_http [''a.js''] world_skip = (0, world_skip)
   \<and> files world_custom (resolve env_default ''a.js'') = Some content_custom
   \<and> custom_skip collaborators_custom = Some (search_ci ''@no-review'')
   \<and> search_ci ''@no-review'' content_custom
   \<and> validateCommit env_default collaborators_custom diff_http [''a.js''] world_custom
       = (0, world_custom)
   \<and> (''hotfix'', ''no-review'') \<in> set skip_directives
   \<and> list_all is_space '' '' \<and> list_all is_space []
   \<and> default_skip_test (''x = 1; '' @ ''//'' @ '' '' @ ''hotfix'' @ [] @ '':'' @ '' ''
                           @ ''no-review'' @ '' (see ticket)'')"
proof -
  have m: "''a.js'' \<in> set [''a.js'']"
    by simp
  have f: "files world_skip (resolve env_default ''a.js'') = Some content_skip"
    by (simp add: world_skip_def env_default_def content_skip_def)
  have t: "default_skip_test content_skip"
    by code_simp
  have c: "custom_skip collaborators_http = None"
    by (simp add: collaborators_http_def)
  have p: "case custom_skip collaborators_http of None \<Rightarrow> default_skip_test content_skip
           | Some t \<Rightarrow> t content_skip"
    unfolding c using t by simp
  note s1 = skip_directive_exits_zero[OF m f p, where l = "''hotfix''" and r = "''no-review''"
      and ?s1.0 = "'' ''" and ?s2.0 = "[]" and ?s3.0 = "'' ''" and pre = "''x = 1; ''"
      and post = "'' (see ticket)''"]
  have r: "validateCommit env_default collaborators_http diff_http [''a.js''] world_skip
       = (0, world_skip)"
    by (rule s1[THEN conjunct1])
  have k: "(''hotfix'', ''no-review'') \<in> set skip_directives"
    by (simp add: skip_directives_def)
  have sp: "list_all is_space '' ''" "list_all is_space []"
    by (simp_all add: is_space_def)
  have b: "default_skip_test (''x = 1; '' @ ''//'' @ '' '' @ ''hotfix'' @ [] @ '':'' @ '' ''
                           @ ''no-review'' @ '' (see ticket)'')"
    using s1[THEN conjunct2] k sp by blast
  have f2: "files world_custom (resolve env_default ''a.js'') = Some content_custom"
    by (simp add: world_custom_def env_default_def)
  have t2: "search_ci ''@no-review'' content_custom"
    by code_simp
  have c2: "custom_skip collaborators_custom = Some (search_ci ''@no-review'')"
    by (simp add: collaborators_custom_def)
  have p2: "case custom_skip collaborators_custom of None \<Rightarrow> default_skip_test content_custom
           | Some t \<Rightarrow> t content_custom"
    unfolding c2 using t2 by simp
  have r2: "validateCommit env_default collaborators_custom diff_http [''a.js''] world_custom
       = (0, world_custom)"
    by (rule skip_directive_exits_zero[OF m f2 p2, THEN conjunct1])
  show ?thesis
    by (intro conjI m f c t r f2 c2 t2 r2 k sp b)
qed

text \<open>
  Claim C9 counts a built-in directive and a custom pattern alike.  Below
  \<open>AI_SKIP_DIRECTIVE_REGEX\<close> is set, and the staged file holds the built-in directive
  \<open>// ai-review: skip\<close>, which the custom pattern does not match: no skip is detected, the
  review runs, the workflow prompt is shown, and the user's choice to cancel gives exit code 1.
\<close>

theorem custom_pattern_replaces_builtin_counterexample:
  "files world_fetch_skip (resolve env_cancel ''a.js'')
     = Some (join_lines [''fetch(\"http://x\")'', ''// ai-review: skip''])
   \<and> default_skip_test (join_lines [''fetch(\"http://x\")'', ''// ai-review: skip''])
   \<and> (case custom_skip collaborators_custom of None \<Rightarrow> False | Some t \<Rightarrow> True)
   \<and> \<not> detectSkipDirective (custom_skip collaborators_custom) (resolve env_cancel) world_fetch_skip
         [''a.js'']
   \<and> fst (validateCommit env_cancel collaborators_custom diff_fetch_skip [''a.js''] world_fetch_skip)
       = 1
   \<and> prompted (snd (validateCommit env_cancel collaborators_custom diff_fetch_skip [''a.js'']
                      world_fetch_skip)) = [''enhancedDecision'']"
  by code_simp

text \<open>
  The two early exits for a diff with nothing to review: when the staged diff is blank, or
  when nothing but white space is left of it after filterMeaningfulChanges, validateCommit
  exits with code 0 and leaves the world as it found it.
\<close>

lemma no_meaningful_change_exits_zero:
  assumes "trim rawDiff = [] \<or> trim (filterMeaningfulChanges rawDiff) = []"
  shows "validateCommit e c rawDiff stagedFiles w = (0, w)"
  using assms by (auto simp: validateCommit_def)

lemma no_meaningful_change_example:
  "trim diff_mode_only \<noteq> [] \<and> trim (filterMeaningfulChanges diff_mode_only) = []
   \<and> validateCommit env_default collaborators_http diff_mode_only [''package-lock.json''] world_http
       = (0, world_http)
   \<and> trim [] = []
   \<and> validateCommit env_default collaborators_http [] [] world_http = (0, world_http)"
proof -
  have a: "trim diff_mode_only \<noteq> []"
    by code_simp
  have b: "trim (filterMeaningfulChanges diff_mode_only) = []"
    by code_simp
  have e: "trim [] = []"
    by (simp add: trim_def)
  have r1: "validateCommit env_default collaborators_http diff_mode_only [''package-lock.json'']
       world_http = (0, world_http)"
    by (rule no_meaningful_change_exits_zero[OF disjI2[OF b]])
  have r2: "validateCommit env_default collaborators_http [] [] world_http = (0, world_http)"
    by (rule no_meaningful_change_exits_zero[OF disjI1[OF e]])
  from a b e r1 r2 show ?thesis by blast
qed

text \<open>
  Claim C10 says that a change to excluded files alone, such as \<open>.env\<close>, exits with code 0
  without a prompt.  The filter looks at each line of the diff by itself and drops the ones
  that hold the name of an excluded file.  Of the diff below, a change to \<open>.env\<close> alone, it
  drops the three header lines that name the file and keeps the hunk: the diff that is left
  is not blank, the review finds the \<open>http://\<close> of the added line and lists a fix for it
  (under \<open>index.js\<close>, no header being left to name the file), the workflow prompt is shown,
  and the user's choice to cancel gives exit code 1.
\<close>

theorem excluded_file_change_is_reviewed:
  "split_lines (filterMeaningfulChanges diff_env)
     = [''index 1111111..2222222 100644'', ''@@ -1 +1 @@'', ''-API_URL=\"https://x\"'',
        ''+API_URL=\"http://x\"'']
   \<and> trim (filterMeaningfulChanges diff_env) \<noteq> []
   \<and> auto_applicable_lines (getCopilotReview [http_rule] Map.empty (filterMeaningfulChanges diff_env))
       = [''File: index.js'',
          ''Line 4: API_URL=\"http://x\" '' @ arrow
            @ '' API_URL=\"http://x\" // TODO: Fix: Insecure HTTP protocol'']
   \<and> fst (validateCommit env_cancel collaborators_env diff_env [''.env''] world_env) = 1
   \<and> prompted (snd (validateCommit env_cancel collaborators_env diff_env [''.env''] world_env))
       = [''enhancedDecision'']"
  by code_simp

section \<open>The policy for a confirmation that times out\<close>

lemma review_cancelled:
  assumes "nonInteractive e \<and> \<not> forcePrompt e \<or> apply_answer e filename = Cancelled"
  shows "fst (interactiveReviewAndApply e filename w) = (DEFAULT_ON_CANCEL e = ''auto-apply'')
     \<and> files (snd (interactiveReviewAndApply e filename w)) = files w"
  using assms by (auto simp: interactiveReviewAndApply_def ask_def)

lemma auto_apply_file_cancelled:
  assumes "nonInteractive e \<and> \<not> forcePrompt e \<or> apply_answer e filename = Cancelled"
    and "isStaged stagedFiles filename" and "files w (resolve e filename) = Some originalContent"
  shows "(DEFAULT_ON_CANCEL e = ''auto-apply'' \<longrightarrow>
            files (fst (auto_apply_file e stagedFiles (w, applied) (filename, fxs))) (resolve e filename)
              = Some (apply_fixes originalContent fxs)
            \<and> snd (auto_apply_file e stagedFiles (w, applied) (filename, fxs))
              = applied @ [(filename, resolve e filename @ ''.copilot-backup'')])
       \<and> (DEFAULT_ON_CANCEL e \<noteq> ''auto-apply'' \<longrightarrow>
            files (fst (auto_apply_file e stagedFiles (w, applied) (filename, fxs))) (resolve e filename)
              = Some originalContent
            \<and> snd (auto_apply_file e stagedFiles (w, applied) (filename, fxs)) = applied)"
proof -
  let ?w0 = "write_file (resolve e filename @ ''.copilot-backup'') originalContent w"
  obtain acc w1 where r: "interactiveReviewAndApply e filename ?w0 = (acc, w1)"
    by (cases "interactiveReviewAndApply e filename ?w0")
  from review_cancelled[OF assms(1), of ?w0] r
  have acc: "acc = (DEFAULT_ON_CANCEL e = ''auto-apply'')" and f1: "files w1 = files ?w0"
    by simp_all
  have f0: "files ?w0 (resolve e filename) = Some originalContent"
    using assms(3) by (simp add: write_file_def)
  show ?thesis
    using assms(2,3) r acc f1 f0
    by (simp add: auto_apply_file_def write_file_def)
qed

lemma with_filename_type: "af_type (with_filename stagedFiles f) = af_type f"
  by (auto simp: with_filename_def split: list.splits)

lemma fallback_head:
  "(case autoFixes of [] \<Rightarrow> False | f # fs \<Rightarrow> af_type f = Some ''fallback'')
     \<Longrightarrow> autoApplyAndRecommit e autoFixes stagedFiles w = (1, w)"
  by (simp add: autoApplyAndRecommit_def is_fallback_def)

lemma workflow_cancelled:
  assumes "enhancedDecision_answer e = Cancelled"
  shows "(DEFAULT_ON_CANCEL e = ''skip'' \<longrightarrow>
            enhancedWorkflow e c fb stagedFiles w = (0, ask ''enhancedDecision'' w))
       \<and> (DEFAULT_ON_CANCEL e \<noteq> ''skip'' \<and> DEFAULT_ON_CANCEL e \<noteq> ''auto-apply'' \<longrightarrow>
            enhancedWorkflow e c fb stagedFiles w = (1, ask ''enhancedDecision'' w))
       \<and> (DEFAULT_ON_CANCEL e = ''auto-apply'' \<longrightarrow>
            enhancedWorkflow e c fb stagedFiles w =
              (if fb_fixes fb = [] then (1, ask ''enhancedDecision'' w)
               else autoApplyAndRecommit e (map (with_filename stagedFiles) (fb_fixes fb)) stagedFiles
                      (ask ''enhancedDecision'' w)))"
proof (intro conjI impI)
  assume "DEFAULT_ON_CANCEL e = ''skip''"
  with assms show "enhancedWorkflow e c fb stagedFiles w = (0, ask ''enhancedDecision'' w)"
    by (simp add: enhancedWorkflow_def timeout_decision_def Let_def)
next
  assume "DEFAULT_ON_CANCEL e \<noteq> ''skip'' \<and> DEFAULT_ON_CANCEL e \<noteq> ''auto-apply''"
  with assms show "enhancedWorkflow e c fb stagedFiles w = (1, ask ''enhancedDecision'' w)"
    by (simp add: enhancedWorkflow_def timeout_decision_def Let_def)
next
  assume p: "DEFAULT_ON_CANCEL e = ''auto-apply''"
  show "enhancedWorkflow e c fb stagedFiles w =
              (if fb_fixes fb = [] then (1, ask ''enhancedDecision'' w)
               else autoApplyAndRecommit e (map (with_filename stagedFiles) (fb_fixes fb)) stagedFiles
                      (ask ''enhancedDecision'' w))"
  proof (cases "fb_fixes fb")
    case Nil
    with assms p show ?thesis
      by (simp add: enhancedWorkflow_def timeout_decision_def Let_def fallback_fix_def
          with_filename_def)
  next
    case (Cons f fs)
    with assms p show ?thesis
      using fallback_head[of "map (with_filename stagedFiles) (fb_fixes fb)" e stagedFiles
          "ask ''enhancedDecision'' w"]
      by (auto simp: enhancedWorkflow_def timeout_decision_def Let_def with_filename_type)
  qed
qed

text \<open>
  Claim C5, as the program has it.  When the workflow prompt of validateCommit times out or is
  cancelled, the policy decides: \<open>skip\<close> exits with code 0 and \<open>cancel\<close> (or any other value)
  exits with code 1, in both cases with only the prompt recorded and no file written;
  \<open>auto-apply\<close> exits with code 1 when the feedback holds no fix and goes on to
  autoApplyAndRecommit with the fixes otherwise.  When the confirmation for one file times
  out, is cancelled, or is not shown because the terminal is not interactive, \<open>auto-apply\<close>
  accepts the file, which is written with its fixes applied and counted as applied; any other
  policy rejects it, and the file keeps its content and is not counted.
\<close>

theorem default_on_cancel_policy:
  "(enhancedDecision_answer e = Cancelled \<longrightarrow>
      (DEFAULT_ON_CANCEL e = ''skip'' \<longrightarrow>
         enhancedWorkflow e c fb stagedFiles w = (0, ask ''enhancedDecision'' w))
    \<and> (DEFAULT_ON_CANCEL e \<noteq> ''skip'' \<and> DEFAULT_ON_CANCEL e \<noteq> ''auto-apply'' \<longrightarrow>
         enhancedWorkflow e c fb stagedFiles w = (1, ask ''enhancedDecision'' w))
    \<and> (DEFAULT_ON_CANCEL e = ''auto-apply'' \<longrightarrow>
         enhancedWorkflow e c fb stagedFiles w =
           (if fb_fixes fb = [] then (1, ask ''enhancedDecision'' w)
            else autoApplyAndRecommit e (map (with_filename stagedFiles) (fb_fixes fb)) stagedFiles
                   (ask ''enhancedDecision'' w))))
   \<and> ((nonInteractive e \<and> \<not> forcePrompt e \<or> apply_answer e filename = Cancelled)
        \<and> isStaged stagedFiles filename \<and> files w (resolve e filename) = Some originalContent \<longrightarrow>
      (DEFAULT_ON_CANCEL e = ''auto-apply'' \<longrightarrow>
         files (fst (auto_apply_file e stagedFiles (w, applied) (filename, fxs))) (resolve e filename)
           = Some (apply_fixes originalContent fxs)
         \<and> snd (auto_apply_file e stagedFiles (w, applied) (filename, fxs))
           = applied @ [(filename, resolve e filename @ ''.copilot-backup'')])
    \<and> (DEFAULT_ON_CANCEL e \<noteq> ''auto-apply'' \<longrightarrow>
         files (fst (auto_apply_file e stagedFiles (w, applied) (filename, fxs))) (resolve e filename)
           = Some originalContent
         \<and> snd (auto_apply_file e stagedFiles (w, applied) (filename, fxs)) = applied))"
  using workflow_cancelled[of e c fb stagedFiles w]
    auto_apply_file_cancelled[of e filename stagedFiles w originalContent applied fxs]
  by blast

theorem default_on_cancel_policy_witness:
  "enhancedDecision_answer (env_timeout ''skip'') = Cancelled
   \<and> DEFAULT_ON_CANCEL (env_timeout ''skip'') = ''skip''
   \<and> enhancedWorkflow (env_timeout ''skip'') collaborators_http feedback_http [''a.js''] world_http
       = (0, ask ''enhancedDecision'' world_http)
   \<and> enhancedDecision_answer (env_timeout ''cancel'') = Cancelled
   \<and> DEFAULT_ON_CANCEL (env_timeout ''cancel'') = ''cancel''
   \<and> enhancedWorkflow (env_timeout ''cancel'') collaborators_http feedback_http [''a.js''] world_http
       = (1, ask ''enhancedDecision'' world_http)
   \<and> enhancedDecision_answer (env_timeout ''auto-apply'') = Cancelled
   \<and> DEFAULT_ON_CANCEL (env_timeout ''auto-apply'') = ''auto-apply''
   \<and> fb_fixes feedback_http \<noteq> []
   \<and> enhancedWorkflow (env_timeout ''auto-apply'') collaborators_http feedback_http [''a.js''] world_http
       = autoApplyAndRecommit (env_timeout ''auto-apply'')
           (map (with_filename [''a.js'']) (fb_fixes feedback_http)) [''a.js'']
           (ask ''enhancedDecision'' world_http)
   \<and> apply_answer (env_timeout ''auto-apply'') ''a.js'' = Cancelled
   \<and> apply_answer (env_timeout ''skip'') ''a.js'' = Cancelled
   \<and> isStaged [''a.js''] ''a.js''
   \<and> files world_http (resolve (env_timeout ''auto-apply'') ''a.js'') = Some ''fetch(\"http://x\")''
   \<and> files world_http (resolve (env_timeout ''skip'') ''a.js'') = Some ''fetch(\"http://x\")''
   \<and> files (fst (auto_apply_file (env_timeout ''auto-apply'') [''a.js''] (world_http, [])
                    (''a.js'', [autofix_http]))) (resolve (env_timeout ''auto-apply'') ''a.js'')
       = Some (apply_fixes ''fetch(\"http://x\")'' [autofix_http])
   \<and> files (fst (auto_apply_file (env_timeout ''skip'') [''a.js''] (world_http, [])
                    (''a.js'', [autofix_http]))) (resolve (env_timeout ''skip'') ''a.js'')
       = Some ''fetch(\"http://x\")''
   \<and> snd (auto_apply_file (env_timeout ''skip'') [''a.js''] (world_http, []) (''a.js'', [autofix_http]))
       = []"
proof -
  have s: "enhancedDecision_answer (env_timeout ''skip'') = Cancelled
      \<and> DEFAULT_ON_CANCEL (env_timeout ''skip'') = ''skip''
      \<and> apply_answer (env_timeout ''skip'') ''a.js'' = Cancelled
      \<and> files world_http (resolve (env_timeout ''skip'') ''a.js'') = Some ''fetch(\"http://x\")''"
    by (simp add: env_timeout_def env_default_def world_http_def)
  have k: "enhancedDecision_answer (env_timeout ''cancel'') = Cancelled
      \<and> DEFAULT_ON_CANCEL (env_timeout ''cancel'') = ''cancel''"
    by (simp add: env_timeout_def env_default_def)
  have a: "enhancedDecision_answer (env_timeout ''auto-apply'') = Cancelled
      \<and> DEFAULT_ON_CANCEL (env_timeout ''auto-apply'') = ''auto-apply''
      \<and> apply_answer (env_timeout ''auto-apply'') ''a.js'' = Cancelled
      \<and> files world_http (resolve (env_timeout ''auto-apply'') ''a.js'') = Some ''fetch(\"http://x\")''"
    by (simp add: env_timeout_def env_default_def world_http_def)
  have f: "fb_fixes feedback_http \<noteq> [] \<and> isStaged [''a.js''] ''a.js''"
    by (simp add: feedback_http_def isStaged_def endsWith_def)
  show ?thesis
    using s k a f
      default_on_cancel_policy[where e = "env_timeout ''skip''" and c = collaborators_http
        and fb = feedback_http and stagedFiles = "[''a.js'']" and w = world_http
        and filename = "''a.js''" and originalContent = "''fetch(\"http://x\")''"
        and applied = "[]" and fxs = "[autofix_http]"]
      default_on_cancel_policy[where e = "env_timeout ''cancel''" and c = collaborators_http
        and fb = feedback_http and stagedFiles = "[''a.js'']" and w = world_http]
      default_on_cancel_policy[where e = "env_timeout ''auto-apply''" and c = collaborators_http
        and fb = feedback_http and stagedFiles = "[''a.js'']" and w = world_http
        and filename = "''a.js''" and originalContent = "''fetch(\"http://x\")''"
        and applied = "[]" and fxs = "[autofix_http]"]
    by simp
qed

text \<open>
  Claim C5 says that under the policy \<open>skip\<close> a confirmation that times out still lets the
  commit through.  Below the policy is \<open>skip\<close>, the user chooses to auto-apply, and the
  confirmation for the only file times out: the file keeps its content, and the exit code is 1.
\<close>

theorem skip_policy_blocks_commit_counterexample:
  "DEFAULT_ON_CANCEL env_skip_timeout = ''skip''
   \<and> apply_answer env_skip_timeout ''a.js'' = Cancelled
   \<and> fst (validateCommit env_skip_timeout collaborators_http diff_http [''a.js''] world_http) = 1
   \<and> files (snd (validateCommit env_skip_timeout collaborators_http diff_http [''a.js''] world_http))
        ''/repo/a.js'' = files world_http ''/repo/a.js''"
  by code_simp

section \<open>The recommit\<close>

lemma takeWhile_run:
  "list_all P a \<Longrightarrow> \<not> P x \<Longrightarrow>
     takeWhile P (a @ x # r) = a \<and> dropWhile P (a @ x # r) = x # r"
  by (induction a) auto

lemma list_all_takeWhile: "list_all P (takeWhile P xs)"
  by (induction xs) auto

lemma ticket_at_sound:
  assumes "ticket_at s = Some t"
  shows "is_ticket t \<and> (\<exists>post. s = t @ post)"
proof -
  from assms obtain cs where
    u: "takeWhile is_upper s \<noteq> []" and d: "dropWhile is_upper s = CHR ''-'' # cs"
    and n: "takeWhile is_digit cs \<noteq> []"
    and t: "t = takeWhile is_upper s @ CHR ''-'' # takeWhile is_digit cs"
    by (auto simp: ticket_at_def split: if_splits list.splits)
  have "s = takeWhile is_upper s @ dropWhile is_upper s"
    by simp
  also have "\<dots> = t @ dropWhile is_digit cs"
    unfolding d t by simp
  finally have "\<exists>post. s = t @ post"
    by blast
  moreover have "is_ticket t"
    unfolding is_ticket_def t using u n list_all_takeWhile by blast
  ultimately show ?thesis by blast
qed

lemma ticket_search_sound:
  "ticket_search b = Some t \<Longrightarrow> is_ticket t \<and> (\<exists>pre post. b = pre @ t @ post)"
proof (induction b)
  case Nil
  then show ?case by simp
next
  case (Cons c cs)
  show ?case
  proof (cases "ticket_at (c # cs)")
    case None
    with Cons.prems have "ticket_search cs = Some t" by simp
    from Cons.IH[OF this] obtain pre post where "is_ticket t" "cs = pre @ t @ post"
      by blast
    then have "is_ticket t" "c # cs = (c # pre) @ t @ post"
      by simp_all
    then show ?thesis by blast
  next
    case (Some t')
    with Cons.prems have "t' = t" by simp
    with ticket_at_sound[OF Some] obtain post where "is_ticket t" "c # cs = [] @ t @ post"
      by auto
    then show ?thesis by blast
  qed
qed

lemma ticket_at_complete:
  assumes "us \<noteq> []" "list_all is_upper us" "ds \<noteq> []" "list_all is_digit ds"
  shows "ticket_at (us @ CHR ''-'' # ds @ post) \<noteq> None"
proof -
  have "\<not> is_upper (CHR ''-'')"
    by (simp add: is_upper_def)
  from takeWhile_run[OF assms(2) this]
  have 1: "takeWhile is_upper (us @ CHR ''-'' # ds @ post) = us"
    and 2: "dropWhile is_upper (us @ CHR ''-'' # ds @ post) = CHR ''-'' # ds @ post"
    by simp_all
  obtain d ds' where ds: "ds = d # ds'"
    using assms(3) by (cases ds) auto
  with assms(4) have "is_digit d" by simp
  then have 3: "takeWhile is_digit (ds @ post) \<noteq> []"
    by (simp add: ds)
  show ?thesis
    using assms(1) 1 2 3 by (simp add: ticket_at_def)
qed

lemma ticket_search_append: "ticket_at s \<noteq> None \<Longrightarrow> ticket_search (pre @ s) \<noteq> None"
proof (induction pre)
  case Nil
  then show ?case by (cases s) (auto simp: ticket_at_def)
next
  case (Cons c pre)
  then show ?case by (auto split: option.splits)
qed

lemma ticket_search_complete:
  assumes "is_ticket t"
  shows "ticket_search (pre @ t @ post) \<noteq> None"
proof -
  from assms obtain us ds where "t = us @ CHR ''-'' # ds" "us \<noteq> []" "list_all is_upper us"
    "ds \<noteq> []" "list_all is_digit ds"
    unfolding is_ticket_def by blast
  with ticket_at_complete[of us ds post] have "ticket_at (t @ post) \<noteq> None"
    by simp
  then show ?thesis by (rule ticket_search_append)
qed

lemma ticket_at_rest:
  assumes "ticket_at s = Some t"
  shows "\<exists>post. s = t @ post \<and> (\<forall>c cs. post = c # cs \<longrightarrow> \<not> is_digit c)"
proof -
  from assms obtain cs where
    d: "dropWhile is_upper s = CHR ''-'' # cs"
    and t: "t = takeWhile is_upper s @ CHR ''-'' # takeWhile is_digit cs"
    by (auto simp: ticket_at_def split: if_splits list.splits)
  have "s = takeWhile is_upper s @ dropWhile is_upper s"
    by simp
  also have "\<dots> = t @ dropWhile is_digit cs"
    unfolding d t by simp
  finally have "s = t @ dropWhile is_digit cs" .
  moreover have "\<not> is_digit c" if "dropWhile is_digit cs = c # r" for c r
    using that hd_dropWhile[of is_digit cs] by auto
  ultimately show ?thesis
    by blast
qed

lemma ticket_at_here:
  assumes "is_ticket t"
  shows "ticket_at (t @ post) \<noteq> None"
proof -
  from assms obtain us ds where "t = us @ CHR ''-'' # ds" "us \<noteq> []" "list_all is_upper us"
    "ds \<noteq> []" "list_all is_digit ds"
    unfolding is_ticket_def by blast
  with ticket_at_complete[of us ds post] show ?thesis
    by simp
qed

text \<open>
  The match of \<open>/([A-Z]+-\d+)/\<close> is the leftmost text of that shape, taken with all the
  digits that follow it.
\<close>

lemma ticket_search_leftmost:
  "ticket_search b = Some t \<Longrightarrow>
     \<exists>pre post. b = pre @ t @ post \<and> is_ticket t
       \<and> (\<forall>c cs. post = c # cs \<longrightarrow> \<not> is_digit c)
       \<and> (\<forall>pre' t' post'. is_ticket t' \<and> b = pre' @ t' @ post' \<longrightarrow> length pre \<le> length pre')"
proof (induction b)
  case Nil
  then show ?case by simp
next
  case (Cons c cs)
  show ?case
  proof (cases "ticket_at (c # cs)")
    case None
    with Cons.prems have "ticket_search cs = Some t" by simp
    from Cons.IH[OF this] obtain pre post where
      p: "cs = pre @ t @ post" "is_ticket t" "\<forall>c cs. post = c # cs \<longrightarrow> \<not> is_digit c"
      and l: "\<forall>pre' t' post'. is_ticket t' \<and> cs = pre' @ t' @ post' \<longrightarrow> length pre \<le> length pre'"
      by blast
    have "length (c # pre) \<le> length pre'" if "is_ticket t'" "c # cs = pre' @ t' @ post'"
      for pre' t' post'
    proof (cases pre')
      case Nil
      with that(2) ticket_at_here[OF that(1), of post'] None show ?thesis
        by simp
    next
      case (Cons x pre'')
      with that(2) have "cs = pre'' @ t' @ post'" by simp
      with l that(1) have "length pre \<le> length pre''" by blast
      with Cons show ?thesis by simp
    qed
    moreover have "c # cs = (c # pre) @ t @ post"
      using p(1) by simp
    ultimately show ?thesis
      using p(2,3) by blast
  next
    case (Some t')
    with Cons.prems have "t' = t" by simp
    with ticket_at_sound[OF Some] ticket_at_rest[OF Some] obtain post where
      "is_ticket t" "c # cs = [] @ t @ post" "\<forall>c cs. post = c # cs \<longrightarrow> \<not> is_digit c"
      by auto
    moreover have "length ([] :: string) \<le> length pre'" for pre' :: string
      by simp
    ultimately show ?thesis
      by blast
  qed
qed

lemma staged_all:
  "added (foldl (\<lambda>w file. git_add (fst file) w) w appliedFiles) = added w @ map fst appliedFiles
   \<and> files (foldl (\<lambda>w file. git_add (fst file) w) w appliedFiles) = files w
   \<and> commits (foldl (\<lambda>w file. git_add (fst file) w) w appliedFiles) = commits w"
  by (induction appliedFiles arbitrary: w) (simp_all add: git_add_def)

lemma unlinked_all:
  "added (foldl (\<lambda>w file. unlink (snd file) w) w appliedFiles) = added w
   \<and> commits (foldl (\<lambda>w file. unlink (snd file) w) w appliedFiles) = commits w"
  by (induction appliedFiles arbitrary: w) (simp_all add: unlink_def)

lemma recommit_result:
  assumes "appliedFiles \<noteq> []"
  shows "added (snd (recommit e appliedFiles w)) = added w @ map fst appliedFiles
     \<and> (confirmRecommit_answer e \<noteq> Answered False \<longrightarrow>
          commits (snd (recommit e appliedFiles w))
            = commits w @ [(commitMessage (branchName e) (length appliedFiles), [''--no-verify''])]
          \<and> (commit_succeeds e \<longrightarrow> fst (recommit e appliedFiles w) = 0)
          \<and> (\<not> commit_succeeds e \<longrightarrow>
               fst (recommit e appliedFiles w) = 1 \<and> files (snd (recommit e appliedFiles w)) = files w))
     \<and> (confirmRecommit_answer e = Answered False \<longrightarrow>
          commits (snd (recommit e appliedFiles w)) = commits w
          \<and> fst (recommit e appliedFiles w) = 0
          \<and> files (snd (recommit e appliedFiles w)) = files w)"
proof (cases "confirmRecommit_answer e")
  case Cancelled
  with assms show ?thesis
    by (simp add: recommit_def Let_def ask_def staged_all unlinked_all)
next
  case (Answered b)
  with assms show ?thesis
    by (cases b) (simp_all add: recommit_def Let_def ask_def staged_all unlinked_all)
qed

lemma prompted_all:
  "prompted (foldl (\<lambda>w file. git_add (fst file) w) w appliedFiles) = prompted w
   \<and> prompted (foldl (\<lambda>w file. unlink (snd file) w) w appliedFiles) = prompted w"
  by (induction appliedFiles arbitrary: w) (simp_all add: git_add_def unlink_def)

lemma recommit_prompted:
  "appliedFiles \<noteq> [] \<Longrightarrow>
     prompted (snd (recommit e appliedFiles w)) = prompted w @ [''confirmRecommit'']"
proof (cases "confirmRecommit_answer e")
  case Cancelled
  assume "appliedFiles \<noteq> []"
  with Cancelled show ?thesis
    by (simp add: recommit_def Let_def ask_def prompted_all)
next
  case (Answered b)
  assume "appliedFiles \<noteq> []"
  with Answered show ?thesis
    by (cases b) (simp_all add: recommit_def Let_def ask_def prompted_all)
qed

lemma group_fix_nonempty:
  "list_all (\<lambda>entry. snd entry \<noteq> []) m \<Longrightarrow> list_all (\<lambda>entry. snd entry \<noteq> []) (group_fix m x)"
  by (induction m x rule: group_fix.induct) auto

lemma foldl_group_fix_nonempty:
  "list_all (\<lambda>entry. snd entry \<noteq> []) m
     \<Longrightarrow> list_all (\<lambda>entry. snd entry \<noteq> []) (foldl group_fix m fxs)"
proof (induction fxs arbitrary: m)
  case Nil
  then show ?case by simp
next
  case (Cons x fxs)
  from Cons.IH[OF group_fix_nonempty[OF Cons.prems]] show ?case by simp
qed

lemma group_by_file_nonempty: "(k, xs) \<in> set (group_by_file fxs) \<Longrightarrow> xs \<noteq> []"
  using foldl_group_fix_nonempty[of "[]" fxs]
  by (auto simp: group_by_file_def list_all_iff)

lemma auto_apply_file_applied:
  assumes "x \<in> set (snd (auto_apply_file e stagedFiles (w, applied) entry))"
  shows "x \<in> set applied \<or> (fst x = fst entry \<and> isStaged stagedFiles (fst entry)
           \<and> snd x = resolve e (fst entry) @ ''.copilot-backup'')"
  using assms
  by (cases entry) (auto simp: auto_apply_file_def split: if_splits option.splits prod.splits)

lemma auto_apply_loop_applied:
  assumes "x \<in> set (snd (foldl (auto_apply_file e stagedFiles) (w, applied) entries))"
  shows "x \<in> set applied \<or> (\<exists>entry\<in>set entries. fst x = fst entry \<and> isStaged stagedFiles (fst entry)
           \<and> snd x = resolve e (fst entry) @ ''.copilot-backup'')"
  using assms
proof (induction entries arbitrary: w applied)
  case Nil
  then show ?case by simp
next
  case (Cons entry entries)
  obtain w1 applied1 where s: "auto_apply_file e stagedFiles (w, applied) entry = (w1, applied1)"
    by (cases "auto_apply_file e stagedFiles (w, applied) entry")
  with Cons.prems have "x \<in> set (snd (foldl (auto_apply_file e stagedFiles) (w1, applied1) entries))"
    by simp
  from Cons.IH[OF this] show ?case
  proof
    assume "x \<in> set applied1"
    with auto_apply_file_applied[of x e stagedFiles w applied entry] s show ?thesis
      by auto
  next
    assume "\<exists>entry\<in>set entries. fst x = fst entry \<and> isStaged stagedFiles (fst entry)
           \<and> snd x = resolve e (fst entry) @ ''.copilot-backup''"
    then show ?thesis by auto
  qed
qed

lemma auto_apply_file_git:
  "added (fst (auto_apply_file e stagedFiles (w, applied) entry)) = added w
   \<and> commits (fst (auto_apply_file e stagedFiles (w, applied) entry)) = commits w"
  by (cases entry)
    (auto simp: auto_apply_file_def interactiveReviewAndApply_def write_file_def ask_def
       split: option.splits prod.splits answer.splits if_splits)

lemma auto_apply_loop_git:
  "added (fst (foldl (auto_apply_file e stagedFiles) (w, applied) entries)) = added w
   \<and> commits (fst (foldl (auto_apply_file e stagedFiles) (w, applied) entries)) = commits w"
proof (induction entries arbitrary: w applied)
  case Nil
  then show ?case by simp
next
  case (Cons entry entries)
  obtain w1 applied1 where s: "auto_apply_file e stagedFiles (w, applied) entry = (w1, applied1)"
    by (cases "auto_apply_file e stagedFiles (w, applied) entry")
  with auto_apply_file_git[of e stagedFiles w applied entry]
  have "added w1 = added w \<and> commits w1 = commits w"
    by simp
  with Cons.IH[of w1 applied1] s show ?case
    by simp
qed

text \<open>
  Claim C8, as the program has it.  When the loop over the files has applied at least one
  file, autoApplyAndRecommit stages every applied file, in the order of application; each
  has at least one fix and passes the staged test of the loop, which asks that some staged
  path is its name or ends with its name.  Unless the user answers no to the recommit
  confirmation (a confirmation that times out counts as yes), it commits with the option
  \<open>--no-verify\<close> and the message made of the ticket, \<open>-apply-copilot-improvements-\<close>, the
  number of applied files and \<open>-files\<close>; the ticket is the leftmost text of the shape
  \<open>[A-Z]+-\d+\<close> in the branch name, with all the digits that follow it, and \<open>SHOP-0000\<close>
  exactly when the name holds no text of that shape.
  The confirmation is asked once, after the staging.
  A commit that succeeds gives exit code 0; one that fails gives exit code 1 and leaves the
  files as the loop wrote them, staged.  When the user answers no there is no commit, the
  files stay as written and staged, and the exit code is 0.
\<close>

theorem recommit_after_apply:
  assumes "\<not> is_fallback autoFixes" and "snd (auto_apply_loop e stagedFiles autoFixes w) \<noteq> []"
  shows "(\<forall>x\<in>set (snd (auto_apply_loop e stagedFiles autoFixes w)).
            isStaged stagedFiles (fst x)
            \<and> (\<exists>fxs. (fst x, fxs) \<in> set (group_by_file autoFixes) \<and> fxs \<noteq> []))
     \<and> added (snd (autoApplyAndRecommit e autoFixes stagedFiles w))
         = added w @ map fst (snd (auto_apply_loop e stagedFiles autoFixes w))
     \<and> (confirmRecommit_answer e \<noteq> Answered False \<longrightarrow>
          commits (snd (autoApplyAndRecommit e autoFixes stagedFiles w))
            = commits w @ [(commitMessage (branchName e)
                              (length (snd (auto_apply_loop e stagedFiles autoFixes w))),
                            [''--no-verify''])]
          \<and> (commit_succeeds e \<longrightarrow> fst (autoApplyAndRecommit e autoFixes stagedFiles w) = 0)
          \<and> (\<not> commit_succeeds e \<longrightarrow>
               fst (autoApplyAndRecommit e autoFixes stagedFiles w) = 1
               \<and> files (snd (autoApplyAndRecommit e autoFixes stagedFiles w))
                   = files (fst (auto_apply_loop e stagedFiles autoFixes w))))
     \<and> (confirmRecommit_answer e = Answered False \<longrightarrow>
          commits (snd (autoApplyAndRecommit e autoFixes stagedFiles w)) = commits w
          \<and> fst (autoApplyAndRecommit e autoFixes stagedFiles w) = 0
          \<and> files (snd (autoApplyAndRecommit e autoFixes stagedFiles w))
              = files (fst (auto_apply_loop e stagedFiles autoFixes w)))
     \<and> (\<forall>t. ticket_search (branchName e) = Some t \<longrightarrow>
          (\<exists>pre post. branchName e = pre @ t @ post \<and> is_ticket t
             \<and> (\<forall>c cs. post = c # cs \<longrightarrow> \<not> is_digit c)
             \<and> (\<forall>pre' t' post'. is_ticket t' \<and> branchName e = pre' @ t' @ post'
                   \<longrightarrow> length pre \<le> length pre'))
          \<and> commitMessage (branchName e) n
              = t @ ''-apply-copilot-improvements-'' @ show_int (int n) @ ''-files'')
     \<and> (ticket_search (branchName e) = None \<longrightarrow>
          (\<forall>t pre post. is_ticket t \<longrightarrow> branchName e \<noteq> pre @ t @ post)
          \<and> commitMessage (branchName e) n
              = ''SHOP-0000-apply-copilot-improvements-'' @ show_int (int n) @ ''-files'')
     \<and> prompted (snd (autoApplyAndRecommit e autoFixes stagedFiles w))
         = prompted (fst (auto_apply_loop e stagedFiles autoFixes w)) @ [''confirmRecommit'']"
proof -
  obtain w1 appliedFiles where l: "auto_apply_loop e stagedFiles autoFixes w = (w1, appliedFiles)"
    by (cases "auto_apply_loop e stagedFiles autoFixes w")
  with assms(2) have ne: "appliedFiles \<noteq> []"
    by simp
  have r: "autoApplyAndRecommit e autoFixes stagedFiles w = recommit e appliedFiles w1"
    using assms(1) l by (simp add: autoApplyAndRecommit_def)
  have g: "added w1 = added w \<and> commits w1 = commits w"
    using auto_apply_loop_git[of e stagedFiles w "[]" "group_by_file autoFixes"] l
    by (simp add: auto_apply_loop_def)
  have a: "\<forall>x\<in>set appliedFiles. isStaged stagedFiles (fst x)
            \<and> (\<exists>fxs. (fst x, fxs) \<in> set (group_by_file autoFixes) \<and> fxs \<noteq> [])"
  proof
    fix x assume "x \<in> set appliedFiles"
    with l have "x \<in> set (snd (foldl (auto_apply_file e stagedFiles) (w, []) (group_by_file autoFixes)))"
      by (simp add: auto_apply_loop_def)
    from auto_apply_loop_applied[OF this] obtain k fxs where
      m: "(k, fxs) \<in> set (group_by_file autoFixes)" and k: "fst x = k" "isStaged stagedFiles k"
      by auto
    from group_by_file_nonempty[OF m] m k
    show "isStaged stagedFiles (fst x)
            \<and> (\<exists>fxs. (fst x, fxs) \<in> set (group_by_file autoFixes) \<and> fxs \<noteq> [])"
      by blast
  qed
  have t: "\<forall>t. ticket_search (branchName e) = Some t \<longrightarrow>
          (\<exists>pre post. branchName e = pre @ t @ post \<and> is_ticket t
             \<and> (\<forall>c cs. post = c # cs \<longrightarrow> \<not> is_digit c)
             \<and> (\<forall>pre' t' post'. is_ticket t' \<and> branchName e = pre' @ t' @ post'
                   \<longrightarrow> length pre \<le> length pre'))
          \<and> commitMessage (branchName e) n
              = t @ ''-apply-copilot-improvements-'' @ show_int (int n) @ ''-files''"
  proof (intro allI impI conjI)
    fix t
    assume s: "ticket_search (branchName e) = Some t"
    show "\<exists>pre post. branchName e = pre @ t @ post \<and> is_ticket t
             \<and> (\<forall>c cs. post = c # cs \<longrightarrow> \<not> is_digit c)
             \<and> (\<forall>pre' t' post'. is_ticket t' \<and> branchName e = pre' @ t' @ post'
                   \<longrightarrow> length pre \<le> length pre')"
      by (rule ticket_search_leftmost[OF s])
    show "commitMessage (branchName e) n
              = t @ ''-apply-copilot-improvements-'' @ show_int (int n) @ ''-files''"
      using s by (simp add: commitMessage_def)
  qed
  have u: "ticket_search (branchName e) = None \<longrightarrow>
          (\<forall>t pre post. is_ticket t \<longrightarrow> branchName e \<noteq> pre @ t @ post)
          \<and> commitMessage (branchName e) n
              = ''SHOP-0000-apply-copilot-improvements-'' @ show_int (int n) @ ''-files''"
  proof
    assume none: "ticket_search (branchName e) = None"
    have "branchName e \<noteq> pre @ t @ post" if "is_ticket t" for t pre post
      using ticket_search_complete[OF that, of pre post] none by auto
    with none show "(\<forall>t pre post. is_ticket t \<longrightarrow> branchName e \<noteq> pre @ t @ post)
          \<and> commitMessage (branchName e) n
              = ''SHOP-0000-apply-copilot-improvements-'' @ show_int (int n) @ ''-files''"
      by (simp add: commitMessage_def)
  qed
  have pr: "prompted (snd (recommit e appliedFiles w1)) = prompted w1 @ [''confirmRecommit'']"
    using ne recommit_prompted[of appliedFiles e w1] by simp
  from recommit_result[OF ne, of e w1] a t u pr show ?thesis
    unfolding r l using g by simp
qed

theorem recommit_after_apply_witness:
  "\<not> is_fallback [autofix_http]
   \<and> snd (auto_apply_loop env_default [''a.js''] [autofix_http] world_http) \<noteq> []
   \<and> confirmRecommit_answer env_default \<noteq> Answered False \<and> commit_succeeds env_default
   \<and> ticket_search (branchName env_default) = Some ''SHOP-123''
   \<and> fst (autoApplyAndRecommit env_default [autofix_http] [''a.js''] world_http) = 0
   \<and> commits (snd (autoApplyAndRecommit env_default [autofix_http] [''a.js''] world_http))
       = commits world_http @ [(commitMessage (branchName env_default)
            (length (snd (auto_apply_loop env_default [''a.js''] [autofix_http] world_http))),
            [''--no-verify''])]
   \<and> commitMessage (branchName env_default) 1
       = ''SHOP-123'' @ ''-apply-copilot-improvements-'' @ show_int (int 1) @ ''-files''
   \<and> snd (auto_apply_loop env_commit_fails [''a.js''] [autofix_http] world_http) \<noteq> []
   \<and> confirmRecommit_answer env_commit_fails \<noteq> Answered False \<and> \<not> commit_succeeds env_commit_fails
   \<and> fst (autoApplyAndRecommit env_commit_fails [autofix_http] [''a.js''] world_http) = 1
   \<and> files (snd (autoApplyAndRecommit env_commit_fails [autofix_http] [''a.js''] world_http))
       = files (fst (auto_apply_loop env_commit_fails [''a.js''] [autofix_http] world_http))
   \<and> snd (auto_apply_loop env_decline [''a.js''] [autofix_http] world_http) \<noteq> []
   \<and> confirmRecommit_answer env_decline = Answered False
   \<and> commits (snd (autoApplyAndRecommit env_decline [autofix_http] [''a.js''] world_http))
       = commits world_http
   \<and> snd (auto_apply_loop env_main [''a.js''] [autofix_http] world_http) \<noteq> []
   \<and> ticket_search (branchName env_main) = None
   \<and> commitMessage (branchName env_main) 1
       = ''SHOP-0000-apply-copilot-improvements-'' @ show_int (int 1) @ ''-files''
   \<and> snd (auto_apply_loop env_two_tickets [''a.js''] [autofix_http] world_http) \<noteq> []
   \<and> ticket_search (branchName env_two_tickets) = Some ''AB-12''
   \<and> commitMessage (branchName env_two_tickets) 1
       = ''AB-12'' @ ''-apply-copilot-improvements-'' @ show_int (int 1) @ ''-files''
   \<and> prompted (snd (autoApplyAndRecommit env_default [autofix_http] [''a.js''] world_http))
       = prompted (fst (auto_apply_loop env_default [''a.js''] [autofix_http] world_http))
           @ [''confirmRecommit'']"
proof -
  have h: "\<not> is_fallback [autofix_http]"
    by code_simp
  have l1: "snd (auto_apply_loop env_default [''a.js''] [autofix_http] world_http) \<noteq> []"
    by code_simp
  have l2: "snd (auto_apply_loop env_commit_fails [''a.js''] [autofix_http] world_http) \<noteq> []"
    by code_simp
  have l3: "snd (auto_apply_loop env_decline [''a.js''] [autofix_http] world_http) \<noteq> []"
    by code_simp
  have l4: "snd (auto_apply_loop env_main [''a.js''] [autofix_http] world_http) \<noteq> []"
    by code_simp
  have e1: "confirmRecommit_answer env_default \<noteq> Answered False \<and> commit_succeeds env_default
      \<and> ticket_search (branchName env_default) = Some ''SHOP-123''"
    by code_simp
  have e2: "confirmRecommit_answer env_commit_fails \<noteq> Answered False
      \<and> \<not> commit_succeeds env_commit_fails"
    by code_simp
  have e3: "confirmRecommit_answer env_decline = Answered False"
    by code_simp
  have e4: "ticket_search (branchName env_main) = None"
    by code_simp
  have l5: "snd (auto_apply_loop env_two_tickets [''a.js''] [autofix_http] world_http) \<noteq> []"
    by code_simp
  have e5: "ticket_search (branchName env_two_tickets) = Some ''AB-12''"
    by code_simp
  note t5 = recommit_after_apply[OF h l5, where n = 1]
  have a6: "commitMessage (branchName env_two_tickets) 1
       = ''AB-12'' @ ''-apply-copilot-improvements-'' @ show_int (int 1) @ ''-files''"
    using t5[THEN conjunct2, THEN conjunct2, THEN conjunct2, THEN conjunct2, THEN conjunct1,
        THEN spec, of "''AB-12''"] e5
    by (simp del: append.simps)
  note t1 = recommit_after_apply[OF h l1, where n = 1]
  note t2 = recommit_after_apply[OF h l2, where n = 1]
  note t3 = recommit_after_apply[OF h l3, where n = 1]
  note t4 = recommit_after_apply[OF h l4, where n = 1]
  have a1: "fst (autoApplyAndRecommit env_default [autofix_http] [''a.js''] world_http) = 0
      \<and> commits (snd (autoApplyAndRecommit env_default [autofix_http] [''a.js''] world_http))
       = commits world_http @ [(commitMessage (branchName env_default)
            (length (snd (auto_apply_loop env_default [''a.js''] [autofix_http] world_http))),
            [''--no-verify''])]"
    using t1[THEN conjunct2, THEN conjunct2, THEN conjunct1] e1 by simp
  have a2: "commitMessage (branchName env_default) 1
       = ''SHOP-123'' @ ''-apply-copilot-improvements-'' @ show_int (int 1) @ ''-files''"
    using t1[THEN conjunct2, THEN conjunct2, THEN conjunct2, THEN conjunct2, THEN conjunct1,
        THEN spec, of "''SHOP-123''"] e1
    by (simp del: append.simps)
  have a3: "fst (autoApplyAndRecommit env_commit_fails [autofix_http] [''a.js''] world_http) = 1
      \<and> files (snd (autoApplyAndRecommit env_commit_fails [autofix_http] [''a.js''] world_http))
       = files (fst (auto_apply_loop env_commit_fails [''a.js''] [autofix_http] world_http))"
    using t2[THEN conjunct2, THEN conjunct2, THEN conjunct1] e2 by simp
  have a4: "commits (snd (autoApplyAndRecommit env_decline [autofix_http] [''a.js''] world_http))
       = commits world_http"
    using t3[THEN conjunct2, THEN conjunct2, THEN conjunct2, THEN conjunct1] e3 by simp
  have a5: "commitMessage (branchName env_main) 1
       = ''SHOP-0000-apply-copilot-improvements-'' @ show_int (int 1) @ ''-files''"
    using t4[THEN conjunct2, THEN conjunct2, THEN conjunct2, THEN conjunct2, THEN conjunct2,
        THEN conjunct1] e4
    by (simp del: append.simps)
  show ?thesis
    by (intro conjI h l1 l2 l3 l4 e1[THEN conjunct1] e1[THEN conjunct2, THEN conjunct1]
        e1[THEN conjunct2, THEN conjunct2] e2[THEN conjunct1] e2[THEN conjunct2] e3 e4
        a1[THEN conjunct1] a1[THEN conjunct2] a2 a3[THEN conjunct1] a3[THEN conjunct2] a4 a5
        l5 e5 a6
        t1[THEN conjunct2, THEN conjunct2, THEN conjunct2, THEN conjunct2, THEN conjunct2,
          THEN conjunct2])
qed

text \<open>
  Claim C8 says that autoApplyAndRecommit performs the commit once the files are staged.
  Below the user accepts the fixes of the only file and then answers no to the recommit
  confirmation: the file is rewritten and staged, no commit is made, and the exit code is 0.
\<close>

theorem recommit_declined_counterexample:
  "confirmRecommit_answer env_decline = Answered False
   \<and> fst (autoApplyAndRecommit env_decline [autofix_http] [''a.js''] world_http) = 0
   \<and> commits (snd (autoApplyAndRecommit env_decline [autofix_http] [''a.js''] world_http)) = []
   \<and> added (snd (autoApplyAndRecommit env_decline [autofix_http] [''a.js''] world_http)) = [''a.js'']
   \<and> files (snd (autoApplyAndRecommit env_decline [autofix_http] [''a.js''] world_http)) ''/repo/a.js''
       = Some ''fetch(\"http://x\") // TODO: Fix: Insecure HTTP protocol''"
  by code_simp

text \<open>
  The staged test of the loop does not ask that the file itself is staged.  Below only
  \<open>src/data.js\<close> is staged, whose path ends with \<open>a.js\<close>: the fix for \<open>a.js\<close> is applied, and
  \<open>a.js\<close> is staged and committed.
\<close>

lemma staged_test_admits_other_file:
  "''a.js'' \<notin> set [''src/data.js'']
   \<and> isStaged [''src/data.js''] ''a.js''
   \<and> added (snd (autoApplyAndRecommit env_default [autofix_http] [''src/data.js''] world_http))
       = [''a.js'']
   \<and> commits (snd (autoApplyAndRecommit env_default [autofix_http] [''src/data.js''] world_http))
       = [(''SHOP-123-apply-copilot-improvements-1-files'', [''--no-verify''])]"
  by code_simp

section \<open>The declaration-insertion strategy\<close>

lemma defaultValue_cases:
  "(collection_usage code \<longrightarrow> defaultValue code = ''[]'')
   \<and> (\<not> collection_usage code \<and> arithmetic_usage code \<longrightarrow> defaultValue code = ''0'')
   \<and> (\<not> collection_usage code \<and> \<not> arithmetic_usage code \<and> string_usage code \<longrightarrow>
        defaultValue code = [CHR 0x27, CHR 0x27])
   \<and> (\<not> collection_usage code \<and> \<not> arithmetic_usage code \<and> \<not> string_usage code \<longrightarrow>
        defaultValue code = ''[]'')"
  by (auto simp: defaultValue_def collection_usage_def arithmetic_usage_def string_usage_def)

lemma undeclared_fix_captured:
  assumes "rx_exec pat code = Some (v # gs)" and "v \<noteq> []"
  shows "undeclared_fix code pat declaredVariables =
     Some (if v \<in> declaredVariables then trim code
           else if has_own_declaration (trim code) v then trim code
           else declaration_before v (defaultValue code) (trim code))"
  using assms by (simp add: undeclared_fix_def Let_def)

text \<open>
  Claim C7, as the program has it.  For a rule whose message speaks of an undeclared variable
  and whose pattern captures an identifier on the line, generateSmartFix returns the trimmed
  line unchanged when the identifier is in the declared set; in getCopilotReview that set
  holds every identifier that extractDeclaredVariables finds in the file.  It also returns
  the line unchanged when the line itself holds a \<open>const\<close>, \<open>let\<close> or \<open>var\<close> declaration of
  the identifier.  Otherwise it returns one declaration line followed by the trimmed line.
  The initial value comes from the text of the whole line, in this order: \<open>[]\<close> when the
  line holds \<open>.includes(\<close>, \<open>.push(\<close>, \<open>.pop(\<close> or \<open>.length\<close>; else \<open>0\<close> when it holds
  \<open>+ \<close> or \<open>- \<close>; else two quotes when it holds \<open>toString()\<close> or \<open>charAt(\<close>; else \<open>[]\<close>.
\<close>

theorem declaration_insertion:
  assumes "is_undeclared_message (message pat)" and "\<not> str_includes (message pat) ''Console.log''"
    and "rx_exec pat code = Some (v # gs)" and "v \<noteq> []"
  shows "(v \<in> declaredVariables \<longrightarrow> generateSmartFix code pat declaredVariables = trim code)
     \<and> (v \<in> set (extractDeclaredVariables fileContent) \<longrightarrow>
          fx_improved (staged_fix filePath (declared_in_file fileContent) n code pat) = trim code)
     \<and> (v \<notin> declaredVariables \<and> has_own_declaration (trim code) v \<longrightarrow>
          generateSmartFix code pat declaredVariables = trim code)
     \<and> (v \<notin> declaredVariables \<and> \<not> has_own_declaration (trim code) v \<longrightarrow>
          generateSmartFix code pat declaredVariables
            = ''const '' @ v @ '' = '' @ defaultValue code @ ''; // Auto-fix: Variable declaration''
              @ [newline] @ trim code)
     \<and> (collection_usage code \<longrightarrow> defaultValue code = ''[]'')
     \<and> (\<not> collection_usage code \<and> arithmetic_usage code \<longrightarrow> defaultValue code = ''0'')
     \<and> (\<not> collection_usage code \<and> \<not> arithmetic_usage code \<and> string_usage code \<longrightarrow>
          defaultValue code = [CHR 0x27, CHR 0x27])
     \<and> (\<not> collection_usage code \<and> \<not> arithmetic_usage code \<and> \<not> string_usage code \<longrightarrow>
          defaultValue code = ''[]'')"
proof -
  have g: "generateSmartFix code pat dv =
     (if v \<in> dv then trim code
      else if has_own_declaration (trim code) v then trim code
      else declaration_before v (defaultValue code) (trim code))" for dv
    using assms(1,2) undeclared_fix_captured[OF assms(3,4), of dv]
    by (simp add: generateSmartFix_def Let_def)
  have s: "v \<in> set (extractDeclaredVariables fileContent) \<longrightarrow>
          fx_improved (staged_fix filePath (declared_in_file fileContent) n code pat) = trim code"
    by (simp add: staged_fix_def g declared_in_file_def)
  show ?thesis
    using g[of declaredVariables] s defaultValue_cases[of code]
    by (simp add: declaration_before_def)
qed

theorem declaration_insertion_witness:
  "is_undeclared_message (message test_variable_rule)
   \<and> \<not> str_includes (message test_variable_rule) ''Console.log''
   \<and> rx_exec test_variable_rule ''x = testVariable - 1'' = Some [''testVariable'']
   \<and> ''testVariable'' \<in> {''testVariable''}
   \<and> generateSmartFix ''x = testVariable - 1'' test_variable_rule {''testVariable''}
       = trim ''x = testVariable - 1''
   \<and> ''testVariable'' \<in> set (extractDeclaredVariables ''let testVariable;'')
   \<and> fx_improved (staged_fix ''a.js'' (declared_in_file ''let testVariable;'') 2
          ''x = testVariable - 1'' test_variable_rule) = trim ''x = testVariable - 1''
   \<and> ''testVariable'' \<notin> {} \<and> \<not> has_own_declaration (trim ''x = testVariable - 1'') ''testVariable''
   \<and> \<not> collection_usage ''x = testVariable - 1'' \<and> arithmetic_usage ''x = testVariable - 1''
   \<and> generateSmartFix ''x = testVariable - 1'' test_variable_rule {}
       = ''const testVariable = 0; // Auto-fix: Variable declaration'' @ [newline]
         @ ''x = testVariable - 1''
   \<and> rx_exec test_variable_rule ''const testVariable = f()'' = Some [''testVariable'']
   \<and> has_own_declaration (trim ''const testVariable = f()'') ''testVariable''
   \<and> generateSmartFix ''const testVariable = f()'' test_variable_rule {}
       = trim ''const testVariable = f()''
   \<and> collection_usage ''testVariable.push(1)'' \<and> defaultValue ''testVariable.push(1)'' = ''[]''
   \<and> \<not> collection_usage ''testVariable.toString()'' \<and> \<not> arithmetic_usage ''testVariable.toString()''
   \<and> string_usage ''testVariable.toString()''
   \<and> defaultValue ''testVariable.toString()'' = [CHR 0x27, CHR 0x27]
   \<and> \<not> collection_usage ''f(testVariable)'' \<and> \<not> arithmetic_usage ''f(testVariable)''
   \<and> \<not> string_usage ''f(testVariable)'' \<and> defaultValue ''f(testVariable)'' = ''[]''"
proof -
  have m: "is_undeclared_message (message test_variable_rule)"
    and c: "\<not> str_includes (message test_variable_rule) ''Console.log''"
    by code_simp+
  have x1: "rx_exec test_variable_rule ''x = testVariable - 1'' = Some [''testVariable'']"
    and x2: "rx_exec test_variable_rule ''const testVariable = f()'' = Some [''testVariable'']"
    and x3: "rx_exec test_variable_rule ''testVariable.push(1)'' = Some [''testVariable'']"
    and x4: "rx_exec test_variable_rule ''testVariable.toString()'' = Some [''testVariable'']"
    and x5: "rx_exec test_variable_rule ''f(testVariable)'' = Some [''testVariable'']"
    by code_simp+
  have v: "''testVariable'' \<noteq> []"
    by simp
  have d1: "''testVariable'' \<in> {''testVariable''}"
    and d2: "''testVariable'' \<in> set (extractDeclaredVariables ''let testVariable;'')"
    and d3: "''testVariable'' \<notin> {}"
    by code_simp+
  have o1: "\<not> has_own_declaration (trim ''x = testVariable - 1'') ''testVariable''"
    and o2: "has_own_declaration (trim ''const testVariable = f()'') ''testVariable''"
    by code_simp+
  have u1: "\<not> collection_usage ''x = testVariable - 1''" "arithmetic_usage ''x = testVariable - 1''"
    and u3: "collection_usage ''testVariable.push(1)''"
    and u4: "\<not> collection_usage ''testVariable.toString()''"
      "\<not> arithmetic_usage ''testVariable.toString()''" "string_usage ''testVariable.toString()''"
    and u5: "\<not> collection_usage ''f(testVariable)''" "\<not> arithmetic_usage ''f(testVariable)''"
      "\<not> string_usage ''f(testVariable)''"
    by code_simp+
  note t1 = declaration_insertion[OF m c x1 v, where declaredVariables = "{''testVariable''}"
      and fileContent = "''let testVariable;''" and filePath = "''a.js''" and n = 2]
  note t1e = declaration_insertion[OF m c x1 v, where declaredVariables = "{}"]
  note t2 = declaration_insertion[OF m c x2 v, where declaredVariables = "{}"]
  note t3 = declaration_insertion[OF m c x3 v]
  note t4 = declaration_insertion[OF m c x4 v]
  note t5 = declaration_insertion[OF m c x5 v]
  have r1: "generateSmartFix ''x = testVariable - 1'' test_variable_rule {''testVariable''}
       = trim ''x = testVariable - 1''"
    using t1[THEN conjunct1] d1 by blast
  have r2: "fx_improved (staged_fix ''a.js'' (declared_in_file ''let testVariable;'') 2
          ''x = testVariable - 1'' test_variable_rule) = trim ''x = testVariable - 1''"
    using t1[THEN conjunct2, THEN conjunct1] d2 by blast
  have dv: "defaultValue ''x = testVariable - 1'' = ''0''"
    using t1e[THEN conjunct2, THEN conjunct2, THEN conjunct2, THEN conjunct2, THEN conjunct2,
        THEN conjunct1] u1 by blast
  have tr: "trim ''x = testVariable - 1'' = ''x = testVariable - 1''"
    by code_simp
  have r3: "generateSmartFix ''x = testVariable - 1'' test_variable_rule {}
       = ''const testVariable = 0; // Auto-fix: Variable declaration'' @ [newline]
         @ ''x = testVariable - 1''"
    using t1e[THEN conjunct2, THEN conjunct2, THEN conjunct2, THEN conjunct1] d3 o1
    unfolding dv tr by simp
  have r4: "generateSmartFix ''const testVariable = f()'' test_variable_rule {}
       = trim ''const testVariable = f()''"
    using t2[THEN conjunct2, THEN conjunct2, THEN conjunct1] d3 o2 by blast
  have r5: "defaultValue ''testVariable.push(1)'' = ''[]''"
    using t3[THEN conjunct2, THEN conjunct2, THEN conjunct2, THEN conjunct2, THEN conjunct1] u3
    by blast
  have r6: "defaultValue ''testVariable.toString()'' = [CHR 0x27, CHR 0x27]"
    using t4[THEN conjunct2, THEN conjunct2, THEN conjunct2, THEN conjunct2, THEN conjunct2,
        THEN conjunct2, THEN conjunct1] u4 by blast
  have r7: "defaultValue ''f(testVariable)'' = ''[]''"
    using t5[THEN conjunct2, THEN conjunct2, THEN conjunct2, THEN conjunct2, THEN conjunct2,
        THEN conjunct2, THEN conjunct2] u5 by blast
  show ?thesis
    by (intro conjI m c x1 x2 d1 d2 d3 o1 o2 u1 u3 u4 u5 r1 r2 r3 r4 r5 r6 r7)
qed

text \<open>
  Claim C7 says that the initial value is zero for arithmetic usage of the identifier.  On the
  line below the flagged identifier is an operand of \<open>+\<close>, nothing declares it, and the
  declaration that generateSmartFix prepends initialises it with \<open>[]\<close>, because the line
  also holds \<open>.length\<close>.
\<close>

theorem arithmetic_usage_gets_collection_counterexample:
  "rx_exec test_variable_rule ''testVariable + items.length'' = Some [''testVariable'']
   \<and> arithmetic_usage ''testVariable + items.length''
   \<and> generateSmartFix ''testVariable + items.length'' test_variable_rule {}
       = ''const testVariable = []; // Auto-fix: Variable declaration'' @ [newline]
         @ ''testVariable + items.length''"
  by code_simp

section \<open>Every actionable issue yields a fix\<close>

lemma push_fix_adds: "\<exists>ys. (fx_file y, ys) \<in> set (push_fix m y) \<and> y \<in> set ys"
  by (induction m y rule: push_fix.induct) auto

lemma push_fix_keeps:
  "(k, xs) \<in> set m \<Longrightarrow> x \<in> set xs \<Longrightarrow> \<exists>ys. (k, ys) \<in> set (push_fix m y) \<and> x \<in> set ys"
  by (induction m y rule: push_fix.induct) auto

lemma foldl_push_fix_keeps:
  "(k, xs) \<in> set m \<Longrightarrow> x \<in> set xs \<Longrightarrow> \<exists>ys. (k, ys) \<in> set (foldl push_fix m fs) \<and> x \<in> set ys"
proof (induction fs arbitrary: m xs)
  case Nil
  then show ?case by auto
next
  case (Cons y fs)
  from push_fix_keeps[OF Cons.prems, of y] obtain ys where
    "(k, ys) \<in> set (push_fix m y)" "x \<in> set ys"
    by blast
  from Cons.IH[OF this] show ?case by simp
qed

lemma foldl_push_fix_adds:
  "x \<in> set fs \<Longrightarrow> \<exists>ys. (fx_file x, ys) \<in> set (foldl push_fix m fs) \<and> x \<in> set ys"
proof (induction fs arbitrary: m)
  case Nil
  then show ?case by simp
next
  case (Cons y fs)
  show ?case
  proof (cases "x = y")
    case True
    from push_fix_adds[of y m] obtain ys where "(fx_file y, ys) \<in> set (push_fix m y)" "y \<in> set ys"
      by blast
    from foldl_push_fix_keeps[OF this, of fs] True show ?thesis by simp
  next
    case False
    with Cons.prems have "x \<in> set fs" by simp
    from Cons.IH[OF this, of "push_fix m y"] show ?thesis by simp
  qed
qed

lemma scan_rule_actionable:
  "scan_rule sc filePath dv n line pat =
     (if flags dv line pat \<and> staged_has sc filePath n \<and> fixable pat
      then [staged_fix filePath dv n line pat] else [])"
  by (auto simp: scan_rule_def flags_def split: option.splits)

lemma scan_file_actionable:
  assumes "i < length (split_lines fileContent)" and "pat \<in> set patterns"
    and "actionable sc filePath (declared_in_file fileContent) (int i + 1) (split_lines fileContent ! i) pat"
  shows "staged_fix filePath (declared_in_file fileContent) (int i + 1) (split_lines fileContent ! i) pat
     \<in> set (scan_file patterns sc filePath fileContent)"
proof -
  let ?line = "split_lines fileContent ! i"
  let ?dv = "declared_in_file fileContent"
  have e: "(i, ?line) \<in> set (enumerate 0 (split_lines fileContent))"
    using assms(1) by (simp add: in_set_enumerate_eq)
  have "staged_fix filePath ?dv (int i + 1) ?line pat \<in> set (scan_rule sc filePath ?dv (int i + 1) ?line pat)"
    using assms(3) by (simp add: scan_rule_actionable actionable_def)
  with assms(2) have "staged_fix filePath ?dv (int i + 1) ?line pat
      \<in> set (scan_line patterns sc filePath ?dv (int i + 1) ?line)"
    using assms(3) by (auto simp: scan_line_def actionable_def scanned_def)
  with e show ?thesis
    unfolding scan_file_def by (auto intro!: bexI[of _ "(i, ?line)"])
qed

lemma auto_applicable_lines_mem:
  "(k, changes) \<in> set fc \<Longrightarrow> x \<in> set changes \<Longrightarrow> fix_line x \<in> set (auto_applicable_lines fc)"
  by (auto simp: auto_applicable_lines_def intro!: bexI[of _ "(k, changes)"])

lemma default_strategy:
  assumes "\<not> str_includes (message pat) ''Console.log''" and "\<not> is_undeclared_message (message pat)"
    and "\<not> str_includes (message pat) ''syntax''" and "\<not> str_includes (message pat) ''var''"
    and "\<not> str_includes (message pat) ''semicolon''"
  shows "generateSmartFix code pat dv = trim code @ '' // TODO: Fix: '' @ trim (strip_first_tag (message pat))"
  using assms by (simp add: generateSmartFix_def Let_def)

text \<open>
  Claim C6, as the program has it.  Every rule match on a scanned line of a modified file that
  is in the staged-change map and has severity critical or high yields a fix in the
  \<open>fileChanges\<close> map, with the text that generateSmartFix returns as replacement, whatever
  that text is, and the fix is listed after \<open>AUTO_APPLICABLE_FIXES\<close>.  generateSmartFix
  always returns a text: when the message of the rule selects none of its strategies, the
  text is the trimmed line followed by a \<open>TODO\<close> comment that carries the message.
\<close>

theorem actionable_issue_yields_fix:
  assumes "filePath \<in> set (modifiedFiles (split_lines diff))" and "readf filePath = Some fileContent"
    and "i < length (split_lines fileContent)" and "pat \<in> set patterns"
    and "actionable (stagedChanges diff) filePath (declared_in_file fileContent) (int i + 1)
           (split_lines fileContent ! i) pat"
  shows "(\<exists>changes. (filePath, changes) \<in> set (getCopilotReview patterns readf diff)
            \<and> staged_fix filePath (declared_in_file fileContent) (int i + 1)
                 (split_lines fileContent ! i) pat \<in> set changes)
     \<and> fix_line (staged_fix filePath (declared_in_file fileContent) (int i + 1)
                   (split_lines fileContent ! i) pat)
          \<in> set (auto_applicable_lines (getCopilotReview patterns readf diff))
     \<and> fx_improved (staged_fix filePath (declared_in_file fileContent) (int i + 1)
                      (split_lines fileContent ! i) pat)
          = generateSmartFix (split_lines fileContent ! i) pat (declared_in_file fileContent)
     \<and> (\<not> str_includes (message pat) ''Console.log'' \<and> \<not> is_undeclared_message (message pat)
          \<and> \<not> str_includes (message pat) ''syntax'' \<and> \<not> str_includes (message pat) ''var''
          \<and> \<not> str_includes (message pat) ''semicolon'' \<longrightarrow>
        generateSmartFix (split_lines fileContent ! i) pat (declared_in_file fileContent)
          = trim (split_lines fileContent ! i) @ '' // TODO: Fix: ''
            @ trim (strip_first_tag (message pat)))"
proof -
  let ?x = "staged_fix filePath (declared_in_file fileContent) (int i + 1)
              (split_lines fileContent ! i) pat"
  have "?x \<in> set (scan_file patterns (stagedChanges diff) filePath fileContent)"
    by (rule scan_file_actionable[OF assms(3,4,5)])
  with assms(1,2) have "?x \<in> set (staged_pass patterns readf diff)"
    unfolding staged_pass_def by (auto intro!: bexI[of _ filePath])
  then have "?x \<in> set (staged_pass patterns readf diff @ legacy_pass patterns readf diff)"
    by simp
  from foldl_push_fix_adds[OF this, of "[]"] obtain changes where
    c: "(filePath, changes) \<in> set (getCopilotReview patterns readf diff)" "?x \<in> set changes"
    by (auto simp: getCopilotReview_def staged_fix_def)
  from auto_applicable_lines_mem[OF c] c default_strategy[of pat] show ?thesis
    by (auto simp: staged_fix_def)
qed

theorem actionable_issue_yields_fix_witness:
  "''a.js'' \<in> set (modifiedFiles (split_lines diff_http))
   \<and> files_http ''a.js'' = Some content_http
   \<and> 0 < length (split_lines content_http)
   \<and> http_rule \<in> set [http_rule]
   \<and> actionable (stagedChanges diff_http) ''a.js'' (declared_in_file content_http) (int 0 + 1)
        (split_lines content_http ! 0) http_rule
   \<and> \<not> str_includes (message http_rule) ''Console.log'' \<and> \<not> is_undeclared_message (message http_rule)
   \<and> \<not> str_includes (message http_rule) ''syntax'' \<and> \<not> str_includes (message http_rule) ''var''
   \<and> \<not> str_includes (message http_rule) ''semicolon''
   \<and> fix_line (staged_fix ''a.js'' (declared_in_file content_http) (int 0 + 1)
          (split_lines content_http ! 0) http_rule)
        \<in> set (auto_applicable_lines (getCopilotReview [http_rule] files_http diff_http))
   \<and> generateSmartFix (split_lines content_http ! 0) http_rule (declared_in_file content_http)
        = trim (split_lines content_http ! 0) @ '' // TODO: Fix: ''
          @ trim (strip_first_tag (message http_rule))"
proof -
  have m: "''a.js'' \<in> set (modifiedFiles (split_lines diff_http))"
    by code_simp
  have r: "files_http ''a.js'' = Some content_http"
    by (simp add: files_http_def content_http_def)
  have i: "0 < length (split_lines content_http)"
    by code_simp
  have p: "http_rule \<in> set [http_rule]"
    by simp
  have a: "actionable (stagedChanges diff_http) ''a.js'' (declared_in_file content_http) (int 0 + 1)
        (split_lines content_http ! 0) http_rule"
    by code_simp
  have s: "\<not> str_includes (message http_rule) ''Console.log''"
    "\<not> is_undeclared_message (message http_rule)"
    "\<not> str_includes (message http_rule) ''syntax''" "\<not> str_includes (message http_rule) ''var''"
    "\<not> str_includes (message http_rule) ''semicolon''"
    by code_simp+
  note t = actionable_issue_yields_fix[where readf = files_http and filePath = "''a.js''"
      and diff = diff_http and fileContent = content_http and i = 0 and pat = http_rule
      and patterns = "[http_rule]", OF m r i p a]
  have g: "generateSmartFix (split_lines content_http ! 0) http_rule (declared_in_file content_http)
        = trim (split_lines content_http ! 0) @ '' // TODO: Fix: ''
          @ trim (strip_first_tag (message http_rule))"
    using t[THEN conjunct2, THEN conjunct2, THEN conjunct2] s by blast
  show ?thesis
    by (intro conjI m r i p a s t[THEN conjunct2, THEN conjunct1] g)
qed

text \<open>
  Claim C6 says that an actionable issue whose rewrite equals the original line never becomes
  an auto-fix candidate.  Below, line 2 of the file is staged and flagged; the identifier that
  the rule captures is declared on line 1, so generateSmartFix returns the line unchanged;
  the fix is in \<open>fileChanges\<close> all the same, and the feedback lists it as a change of the
  line into itself.
\<close>

theorem unchanged_rewrite_is_listed_counterexample:
  "actionable (stagedChanges diff_declared) ''app.js'' (declared_in_file content_declared) 2
     ''items.push(testVariable)'' test_variable_rule
   \<and> generateSmartFix ''items.push(testVariable)'' test_variable_rule (declared_in_file content_declared)
       = ''items.push(testVariable)''
   \<and> fx_improved fix_unchanged = fx_original fix_unchanged
   \<and> fix_unchanged
       \<in> set (concat (map snd (getCopilotReview [test_variable_rule] files_declared diff_declared)))
   \<and> take 2 (auto_applicable_lines (getCopilotReview [test_variable_rule] files_declared diff_declared))
       = [''File: app.js'',
          ''Line 2: items.push(testVariable) '' @ arrow @ '' items.push(testVariable)'']"
  by code_simp

section \<open>Applying the fixes of a file\<close>























section \<open>Backup and restore in applyAISuggestions\<close>

lemma utf8_text_ascii: "list_all (in_range 0x00 0x7F) s \<Longrightarrow> utf8_text s = s"
  by (induction s) auto

lemma utf8_text_replacement: "utf8_text (replacement @ r) = replacement @ utf8_text r"
  by (simp add: replacement_def in_range_def second_lower_def second_upper_def)

text \<open>What has been read and written once is read again as it is.\<close>

lemma utf8_text_idem: "utf8_text (utf8_text s) = utf8_text s"
proof (induction s rule: utf8_text.induct)
  case 1
  show ?case by simp
next
  case (2 b bs)
  have r: "utf8_text replacement = replacement"
    using utf8_text_replacement[of "[]"] by simp
  show ?case
    using 2 by (auto simp: utf8_text_replacement r split: list.splits)
qed

lemma group_fix_keys:
  "map fst (group_fix m x) =
     (if af_filename x \<in> set (map fst m) then map fst m else map fst m @ [af_filename x])"
  by (induction m x rule: group_fix.induct) auto

lemma foldl_group_fix_keys:
  "distinct (map fst m) \<Longrightarrow>
     distinct (map fst (foldl group_fix m fxs))
     \<and> set (map fst (foldl group_fix m fxs)) = set (map fst m) \<union> af_filename ` set fxs"
proof (induction fxs arbitrary: m)
  case Nil
  then show ?case by simp
next
  case (Cons x fxs)
  have d: "distinct (map fst (group_fix m x))"
    using Cons.prems by (simp add: group_fix_keys)
  have s: "set (map fst (group_fix m x)) = insert (af_filename x) (set (map fst m))"
    by (auto simp: group_fix_keys)
  from Cons.IH[OF d] s show ?case
    by auto
qed

lemma group_by_file_keys:
  "distinct (map fst (group_by_file fxs)) \<and> set (map fst (group_by_file fxs)) = af_filename ` set fxs"
  using foldl_group_fix_keys[of "[]" fxs] by (simp add: group_by_file_def)

lemma paths_apart_subset: "paths_apart e N \<Longrightarrow> M \<subseteq> N \<Longrightarrow> paths_apart e M"
  unfolding paths_apart_def by (meson inj_on_subset subsetD)

lemma paths_apart_backup:
  assumes "paths_apart e N" and "f \<in> N" and "g \<in> N"
  shows "resolve e f @ ''.ai-backup'' \<noteq> resolve e g"
    and "f \<noteq> g \<Longrightarrow> resolve e f \<noteq> resolve e g"
    and "f \<noteq> g \<Longrightarrow> resolve e f @ ''.ai-backup'' \<noteq> resolve e g @ ''.ai-backup''"
  using assms unfolding paths_apart_def inj_on_def by auto

lemma ai_apply_file_frame:
  assumes "p \<noteq> resolve e f" and "p \<noteq> resolve e f @ ''.ai-backup''"
  shows "files (fst (ai_apply_file e sf (w, ap) (f, fxs))) p = files w p"
  using assms by (cases "files w (resolve e f)") (simp_all add: ai_apply_file_def write_file_def)

lemma ai_apply_file_cases:
  "(\<not> isStaged sf f \<or> files w (resolve e f) = None) \<and> ai_apply_file e sf (w, ap) (f, fxs) = (w, ap)
   \<or> (\<exists>c. isStaged sf f \<and> files w (resolve e f) = Some c
         \<and> snd (ai_apply_file e sf (w, ap) (f, fxs)) = ap @ [(f, resolve e f @ ''.ai-backup'')]
         \<and> files (fst (ai_apply_file e sf (w, ap) (f, fxs))) (resolve e f @ ''.ai-backup'')
             = Some (utf8_text c)
         \<and> files (fst (ai_apply_file e sf (w, ap) (f, fxs))) (resolve e f)
             = Some (modified_content (utf8_text c) fxs))"
  by (cases "files w (resolve e f)") (auto simp: ai_apply_file_def write_file_def)

text \<open>
  The invariant of the loop that applies: every applied file has its backup path, and the
  backup holds the text of what the file held in the world \<open>wb\<close> the session started from.
\<close>

lemma ai_apply_loop_inv:
  assumes "distinct (map fst entries)"
    and "paths_apart e (fst ` set entries \<union> fst ` set ap)"
    and "fst ` set entries \<inter> fst ` set ap = {}"
    and "distinct (map fst ap)"
    and "\<forall>x\<in>set ap. backed_up e wb ws x"
    and "\<forall>g\<in>fst ` set entries. files ws (resolve e g) = files wb (resolve e g)"
  shows "distinct (map fst (snd (foldl (ai_apply_file e sf) (ws, ap) entries)))
     \<and> (\<forall>x\<in>set (snd (foldl (ai_apply_file e sf) (ws, ap) entries)).
           backed_up e wb (fst (foldl (ai_apply_file e sf) (ws, ap) entries)) x)
     \<and> (\<forall>entry\<in>set entries. isStaged sf (fst entry) \<and> files wb (resolve e (fst entry)) \<noteq> None \<longrightarrow>
           (fst entry, resolve e (fst entry) @ ''.ai-backup'')
             \<in> set (snd (foldl (ai_apply_file e sf) (ws, ap) entries)))
     \<and> set ap \<subseteq> set (snd (foldl (ai_apply_file e sf) (ws, ap) entries))
     \<and> fst ` set (snd (foldl (ai_apply_file e sf) (ws, ap) entries))
           \<subseteq> fst ` set entries \<union> fst ` set ap"
  using assms
proof (induction entries arbitrary: ws ap)
  case Nil
  then show ?case by simp
next
  case (Cons entry entries)
  obtain g fxs where entry: "entry = (g, fxs)"
    by (cases entry)
  let ?N = "fst ` set (entry # entries) \<union> fst ` set ap"
  obtain w1 ap1 where step: "ai_apply_file e sf (ws, ap) (g, fxs) = (w1, ap1)"
    by (cases "ai_apply_file e sf (ws, ap) (g, fxs)")
  have gN: "g \<in> ?N" and g_new: "g \<notin> fst ` set entries" and g_ap: "g \<notin> fst ` set ap"
    using Cons.prems(1,3) entry by auto
  have frame: "files w1 p = files ws p" if "p \<noteq> resolve e g" "p \<noteq> resolve e g @ ''.ai-backup''" for p
    using ai_apply_file_frame[OF that, of sf ws ap fxs] step by simp
  have old_backed: "backed_up e wb w1 x" if "x \<in> set ap" for x
  proof -
    from that Cons.prems(5) have b: "backed_up e wb ws x" by blast
    have xN: "fst x \<in> ?N" and ne: "fst x \<noteq> g"
      using that g_ap by auto
    have "snd x \<noteq> resolve e g" "snd x \<noteq> resolve e g @ ''.ai-backup''"
      using b paths_apart_backup[OF Cons.prems(2) xN gN] ne
      by (auto simp: backed_up_def)
    from frame[OF this] b show ?thesis
      unfolding backed_up_def by metis
  qed
  have rest_same: "files w1 (resolve e h) = files wb (resolve e h)" if "h \<in> fst ` set entries" for h
  proof -
    have hN: "h \<in> ?N" and ne: "h \<noteq> g"
      using that g_new by auto
    have "resolve e h \<noteq> resolve e g" "resolve e h \<noteq> resolve e g @ ''.ai-backup''"
      using paths_apart_backup(2)[OF Cons.prems(2) hN gN ne]
        paths_apart_backup(1)[OF Cons.prems(2) gN hN] by auto
    from frame[OF this] Cons.prems(6) that show ?thesis
      by simp
  qed
  have g_same: "files ws (resolve e g) = files wb (resolve e g)"
    using Cons.prems(6) entry by simp
  from ai_apply_file_cases[of sf g ws e ap fxs] step
  consider (skip) "\<not> isStaged sf g \<or> files ws (resolve e g) = None" "w1 = ws" "ap1 = ap"
    | (applied) c where "isStaged sf g" "files ws (resolve e g) = Some c"
        "ap1 = ap @ [(g, resolve e g @ ''.ai-backup'')]"
        "files w1 (resolve e g @ ''.ai-backup'') = Some (utf8_text c)"
    by auto
  then have inv: "distinct (map fst ap1) \<and> fst ` set ap1 \<subseteq> insert g (fst ` set ap)
      \<and> (\<forall>x\<in>set ap1. backed_up e wb w1 x) \<and> set ap \<subseteq> set ap1
      \<and> (isStaged sf g \<and> files wb (resolve e g) \<noteq> None \<longrightarrow>
           (g, resolve e g @ ''.ai-backup'') \<in> set ap1)"
  proof cases
    case skip
    with Cons.prems(4) old_backed g_same show ?thesis
      by auto
  next
    case applied
    have "backed_up e wb w1 (g, resolve e g @ ''.ai-backup'')"
      using applied(2,4) g_same by (simp add: backed_up_def)
    with applied(3) Cons.prems(4) old_backed g_ap show ?thesis
      by auto
  qed
  have p1: "distinct (map fst entries)"
    using Cons.prems(1) by simp
  have sub: "fst ` set ap1 \<subseteq> insert g (fst ` set ap)"
    using inv by blast
  have dj: "fst ` set entries \<inter> fst ` set ap = {}"
    using Cons.prems(3) by auto
  have "fst ` set entries \<union> fst ` set ap1 \<subseteq> ?N"
    using sub by (auto simp: entry)
  then have p2: "paths_apart e (fst ` set entries \<union> fst ` set ap1)"
    by (rule paths_apart_subset[OF Cons.prems(2)])
  have p3: "fst ` set entries \<inter> fst ` set ap1 = {}"
    using sub g_new dj by blast
  from Cons.IH[OF p1 p2 p3, of w1] inv rest_same
  have ih: "distinct (map fst (snd (foldl (ai_apply_file e sf) (w1, ap1) entries)))
     \<and> (\<forall>x\<in>set (snd (foldl (ai_apply_file e sf) (w1, ap1) entries)).
           backed_up e wb (fst (foldl (ai_apply_file e sf) (w1, ap1) entries)) x)
     \<and> (\<forall>entry\<in>set entries. isStaged sf (fst entry) \<and> files wb (resolve e (fst entry)) \<noteq> None \<longrightarrow>
           (fst entry, resolve e (fst entry) @ ''.ai-backup'')
             \<in> set (snd (foldl (ai_apply_file e sf) (w1, ap1) entries)))
     \<and> set ap1 \<subseteq> set (snd (foldl (ai_apply_file e sf) (w1, ap1) entries))
     \<and> fst ` set (snd (foldl (ai_apply_file e sf) (w1, ap1) entries))
           \<subseteq> fst ` set entries \<union> fst ` set ap1"
    by blast
  have unfold: "foldl (ai_apply_file e sf) (ws, ap) (entry # entries)
      = foldl (ai_apply_file e sf) (w1, ap1) entries"
    using step entry by simp
  let ?R = "foldl (ai_apply_file e sf) (w1, ap1) entries"
  have kept: "distinct (map fst (snd ?R))
     \<and> (\<forall>x\<in>set (snd ?R). backed_up e wb (fst ?R) x)
     \<and> (\<forall>en\<in>set (entry # entries). isStaged sf (fst en) \<and> files wb (resolve e (fst en)) \<noteq> None \<longrightarrow>
           (fst en, resolve e (fst en) @ ''.ai-backup'') \<in> set (snd ?R))
     \<and> set ap \<subseteq> set (snd ?R)"
    using ih inv entry by auto
  have "fst ` set (snd ?R) \<subseteq> fst ` set entries \<union> fst ` set ap1"
    using ih by blast
  moreover have "fst ` set (entry # entries) = insert g (fst ` set entries)"
    by (simp add: entry)
  ultimately have names: "fst ` set (snd ?R) \<subseteq> fst ` set (entry # entries) \<union> fst ` set ap"
    using sub by blast
  show ?case
    unfolding unfold using kept names by simp
qed

lemma ai_apply_loop_frame:
  assumes "\<forall>g\<in>fst ` set entries. p \<noteq> resolve e g \<and> p \<noteq> resolve e g @ ''.ai-backup''"
  shows "files (fst (foldl (ai_apply_file e sf) (w, ap) entries)) p = files w p"
  using assms
proof (induction entries arbitrary: w ap)
  case Nil
  show ?case by simp
next
  case (Cons entry entries)
  obtain g fxs where entry: "entry = (g, fxs)"
    by (cases entry)
  obtain w1 ap1 where step: "ai_apply_file e sf (w, ap) (g, fxs) = (w1, ap1)"
    by (cases "ai_apply_file e sf (w, ap) (g, fxs)")
  have ne: "p \<noteq> resolve e g" "p \<noteq> resolve e g @ ''.ai-backup''"
    using Cons.prems entry by auto
  have "files w1 p = files w p"
    using ai_apply_file_frame[OF ne, of sf w ap fxs] step by simp
  moreover have "files (fst (foldl (ai_apply_file e sf) (w1, ap1) entries)) p = files w1 p"
    using Cons.IH[of w1 ap1] Cons.prems by simp
  ultimately show ?case
    using step entry by simp
qed

lemma ai_apply_loop_modified:
  assumes "distinct (map fst entries)"
    and "paths_apart e (fst ` set entries)"
    and "(f, fxs) \<in> set entries"
    and "isStaged sf f"
    and "files w (resolve e f) = Some c"
  shows "files (fst (foldl (ai_apply_file e sf) (w, ap) entries)) (resolve e f)
     = Some (modified_content (utf8_text c) fxs)"
proof -
  from assms(3) obtain pre post where sp: "entries = pre @ (f, fxs) # post"
    by (meson split_list)
  have fpre: "f \<notin> fst ` set pre" and fpost: "f \<notin> fst ` set post"
    using assms(1) sp by auto
  have fN: "f \<in> fst ` set entries"
    using sp by force
  have apart: "resolve e f \<noteq> resolve e g \<and> resolve e f \<noteq> resolve e g @ ''.ai-backup''"
    if "g \<in> fst ` set pre \<union> fst ` set post" for g
  proof -
    have gN: "g \<in> fst ` set entries"
      using that sp by auto
    have ne: "f \<noteq> g"
      using that fpre fpost by auto
    show ?thesis
      using paths_apart_backup(2)[OF assms(2) fN gN ne] paths_apart_backup(1)[OF assms(2) gN fN]
      by metis
  qed
  obtain w1 ap1 where s1: "foldl (ai_apply_file e sf) (w, ap) pre = (w1, ap1)"
    by (cases "foldl (ai_apply_file e sf) (w, ap) pre")
  obtain w2 ap2 where s2: "ai_apply_file e sf (w1, ap1) (f, fxs) = (w2, ap2)"
    by (cases "ai_apply_file e sf (w1, ap1) (f, fxs)")
  have "files (fst (foldl (ai_apply_file e sf) (w, ap) pre)) (resolve e f) = files w (resolve e f)"
    using apart by (intro ai_apply_loop_frame) blast
  then have before: "files w1 (resolve e f) = Some c"
    using s1 assms(5) by simp
  have after: "files w2 (resolve e f) = Some (modified_content (utf8_text c) fxs)"
    using s2 before assms(4) by (auto simp: ai_apply_file_def write_file_def)
  have "files (fst (foldl (ai_apply_file e sf) (w2, ap2) post)) (resolve e f) = files w2 (resolve e f)"
    using apart by (intro ai_apply_loop_frame) blast
  then show ?thesis
    using sp s1 s2 after by simp
qed

lemma restore_file_files:
  "files (restore_file e w x) =
     (case files w (snd x) of
        None \<Rightarrow> files w
      | Some c \<Rightarrow> ((files w)(resolve e (fst x) \<mapsto> utf8_text c))(snd x := None))"
  by (cases "files w (snd x)") (simp_all add: restore_file_def git_add_def unlink_def write_file_def)

lemma restore_loop_frame:
  assumes "\<forall>y\<in>set r. p \<noteq> resolve e (fst y) \<and> p \<noteq> snd y"
  shows "files (foldl (restore_file e) w r) p = files w p"
  using assms
  by (induction r arbitrary: w) (auto simp: restore_file_files split: option.splits)

lemma restore_loop:
  assumes "distinct (map fst r)"
    and "paths_apart e (fst ` set r)"
    and "\<forall>x\<in>set r. backed_up e wb ws x"
    and "x \<in> set r"
  shows "files (foldl (restore_file e) ws r) (resolve e (fst x))
       = map_option utf8_text (files wb (resolve e (fst x)))
     \<and> files (foldl (restore_file e) ws r) (snd x) = None"
  using assms
proof (induction r arbitrary: ws)
  case Nil
  then show ?case by simp
next
  case (Cons y r)
  let ?w1 = "restore_file e ws y"
  let ?N = "fst ` set (y # r)"
  have yb: "backed_up e wb ws y"
    using Cons.prems(3) by simp
  then obtain c where c: "files ws (snd y) = Some (utf8_text c)"
      "files wb (resolve e (fst y)) = Some c"
    and sy: "snd y = resolve e (fst y) @ ''.ai-backup''"
    unfolding backed_up_def by (cases "files wb (resolve e (fst y))") auto
  have w1: "files ?w1 = ((files ws)(resolve e (fst y) \<mapsto> utf8_text c))(snd y := None)"
    using c(1) by (simp add: restore_file_files utf8_text_idem)
  have yN: "fst y \<in> ?N"
    by simp
  have self: "snd y \<noteq> resolve e (fst y)"
    using sy by simp
  have others: "snd z \<noteq> resolve e (fst y) \<and> snd z \<noteq> snd y
      \<and> resolve e (fst z) \<noteq> resolve e (fst y) \<and> resolve e (fst z) \<noteq> snd y
      \<and> snd z = resolve e (fst z) @ ''.ai-backup''"
    if "z \<in> set r" for z
  proof -
    have bz: "snd z = resolve e (fst z) @ ''.ai-backup''"
      using that Cons.prems(3) by (simp add: backed_up_def)
    have zN: "fst z \<in> ?N"
      using that by simp
    have "fst y \<notin> fst ` set r"
      using Cons.prems(1) by simp
    then have ne: "fst z \<noteq> fst y"
      using that by (metis imageI)
    show ?thesis
      using bz sy paths_apart_backup(1)[OF Cons.prems(2) zN yN]
        paths_apart_backup(1)[OF Cons.prems(2) yN zN]
        paths_apart_backup(2)[OF Cons.prems(2) zN yN ne]
        paths_apart_backup(3)[OF Cons.prems(2) zN yN ne]
      by metis
  qed
  have rest: "\<forall>z\<in>set r. backed_up e wb ?w1 z"
  proof
    fix z
    assume z: "z \<in> set r"
    then have bz: "backed_up e wb ws z"
      using Cons.prems(3) by simp
    have "snd z \<noteq> resolve e (fst y)" "snd z \<noteq> snd y"
      using others[OF z] by blast+
    then have "files ?w1 (snd z) = files ws (snd z)"
      by (simp add: w1)
    with bz show "backed_up e wb ?w1 z"
      unfolding backed_up_def by metis
  qed
  have p1: "distinct (map fst r)"
    using Cons.prems(1) by simp
  have p2: "paths_apart e (fst ` set r)"
    by (rule paths_apart_subset[OF Cons.prems(2)]) auto
  show ?case
  proof (cases "x = y")
    case True
    have "files (foldl (restore_file e) ?w1 r) (resolve e (fst y)) = files ?w1 (resolve e (fst y))"
      using others by (intro restore_loop_frame) metis
    moreover have "files (foldl (restore_file e) ?w1 r) (snd y) = files ?w1 (snd y)"
      using others by (intro restore_loop_frame) metis
    ultimately show ?thesis
      using True w1 c(2) self by simp
  next
    case False
    then have "x \<in> set r"
      using Cons.prems(4) by simp
    from Cons.IH[OF p1 p2 rest this] show ?thesis
      by simp
  qed
qed

lemma paths_apart_single: "paths_apart e {f}"
  by (simp add: paths_apart_def)

text \<open>
  Where the round trip holds.  In a session of applyAISuggestions whose fixes name files
  that are different files, none of them standing where the backup of one of them is
  written: for every file that has a fix, passes the staged test and can be read, the backup
  holds the text read from the file, the file then holds the rewritten text, and when the
  user answers no to the confirmation the session ends with exit code 1, the backup gone and
  the file holding the text that was read from it.  That is the file byte for byte exactly
  when the decoder leaves its bytes as they are.
\<close>

lemma round_trip_when_paths_apart:
  assumes "paths_apart e (af_filename ` set suggestedFixes)"
    and "confirmCommit_answer e = Answered False"
    and "(f, fxs) \<in> set (group_by_file suggestedFixes)"
    and "isStaged stagedFiles f"
    and "files w (resolve e f) = Some original"
  shows "files (fst (ai_apply_all e stagedFiles (group_by_file suggestedFixes) w))
             (resolve e f @ ''.ai-backup'') = Some (utf8_text original)
     \<and> files (fst (ai_apply_all e stagedFiles (group_by_file suggestedFixes) w)) (resolve e f)
         = Some (modified_content (utf8_text original) fxs)
     \<and> fst (applyAISuggestions e suggestedFixes stagedFiles w) = 1
     \<and> files (snd (applyAISuggestions e suggestedFixes stagedFiles w)) (resolve e f)
         = Some (utf8_text original)
     \<and> files (snd (applyAISuggestions e suggestedFixes stagedFiles w))
             (resolve e f @ ''.ai-backup'') = None"
proof -
  let ?entries = "group_by_file suggestedFixes"
  obtain w1 ap where run: "ai_apply_all e stagedFiles ?entries w = (w1, ap)"
    by (cases "ai_apply_all e stagedFiles ?entries w")
  then have loop: "foldl (ai_apply_file e stagedFiles) (w, []) ?entries = (w1, ap)"
    by (simp add: ai_apply_all_def)
  have d: "distinct (map fst ?entries)" and k: "fst ` set ?entries = af_filename ` set suggestedFixes"
    using group_by_file_keys[of suggestedFixes] by simp_all
  have pa: "paths_apart e (fst ` set ?entries)"
    using assms(1) k by simp
  have inv: "distinct (map fst ap) \<and> (\<forall>x\<in>set ap. backed_up e w w1 x)
      \<and> (\<forall>entry\<in>set ?entries. isStaged stagedFiles (fst entry) \<and> files w (resolve e (fst entry)) \<noteq> None \<longrightarrow>
           (fst entry, resolve e (fst entry) @ ''.ai-backup'') \<in> set ap)
      \<and> set [] \<subseteq> set ap
      \<and> fst ` set ap \<subseteq> fst ` set ?entries \<union> fst ` set []"
    using ai_apply_loop_inv[where entries = ?entries and e = e and ap = "[]" and wb = w and ws = w
        and sf = stagedFiles] d pa
    unfolding loop by simp
  let ?x = "(f, resolve e f @ ''.ai-backup'')"
  have x: "?x \<in> set ap"
    using inv assms(3,4,5) by force
  have bx: "backed_up e w w1 ?x"
    using inv x by blast
  have backup: "files w1 (resolve e f @ ''.ai-backup'') = Some (utf8_text original)"
    using bx assms(5) by (simp add: backed_up_def)
  have modified: "files w1 (resolve e f) = Some (modified_content (utf8_text original) fxs)"
    using ai_apply_loop_modified[OF d pa assms(3,4,5), of "[]"] loop by simp
  let ?w2 = "ask ''confirmCommit'' (foldl (\<lambda>w file. git_add (fst file) w) w1 ap)"
  have same: "files ?w2 = files w1"
    by (simp add: ask_def staged_all)
  have b2: "\<forall>x\<in>set ap. backed_up e w ?w2 x"
    using inv unfolding backed_up_def same by blast
  have pr: "paths_apart e (fst ` set ap)"
    using inv by (intro paths_apart_subset[OF pa]) simp
  have dr: "distinct (map fst ap)"
    using inv by blast
  have ne: "ap \<noteq> []"
    using x by auto
  have res: "applyAISuggestions e suggestedFixes stagedFiles w = (1, foldl (restore_file e) ?w2 ap)"
    using run ne assms(2) by (simp add: applyAISuggestions_def Let_def)
  from restore_loop[OF dr pr b2 x] assms(5)
  have "files (foldl (restore_file e) ?w2 ap) (resolve e f) = Some (utf8_text original)
      \<and> files (foldl (restore_file e) ?w2 ap) (resolve e f @ ''.ai-backup'') = None"
    by simp
  then show ?thesis
    unfolding run res using backup modified by simp
qed


end
